theory Spec2Isabelle
  imports Complex_Main
begin

section \<open>Catalog client: the bulk-request chunker\<close>

text \<open>
  JavaScript strings are sequences of UTF-16 code units; they are modelled as lists of
  natural numbers, one per code unit. \<open>str\<close> embeds an ASCII literal.
\<close>

type_synonym ustring = "nat list"

definition str :: "string \<Rightarrow> ustring" where
  "str s = map of_char s"

text \<open>
  \<open>Array.prototype.slice(start, end)\<close> for non-negative indices with \<open>start \<le> end\<close>:
  the elements from \<open>start\<close> up to, not including, \<open>end\<close>, clipped to the array.
\<close>

definition slice :: "'a list \<Rightarrow> nat \<Rightarrow> nat \<Rightarrow> 'a list" where
  "slice xs s e = take (e - s) (drop s xs)"

text \<open>
  \<^verbatim>\<open>chopArray\<close> of the catalog client. The \<^verbatim>\<open>for\<close> loop advances \<open>i\<close> by the chunk size;
  with a chunk size of 0 it never ends on a non-empty array, so the loop is a partial
  function and \<open>None\<close> stands for not returning.
\<close>

partial_function (option) chopArray_loop ::
  "'a list \<Rightarrow> nat \<Rightarrow> nat \<Rightarrow> 'a list list \<Rightarrow> 'a list list option" where
  "chopArray_loop array chunkSize i result =
     (if i < length array
      then chopArray_loop array chunkSize (i + chunkSize)
             (result @ [slice array i (i + chunkSize)])
      else Some result)"

declare chopArray_loop.simps [code]

definition chopArray :: "'a list \<Rightarrow> nat \<Rightarrow> 'a list list option" where
  "chopArray array chunkSize = chopArray_loop array chunkSize 0 []"

section \<open>Data model of the download page\<close>

text \<open>
  A provider as the download page uses it: the fields read by the code of
  \<^verbatim>\<open>Downloader\<close>. The field \<^verbatim>\<open>locale\<close> is named \<open>providerLocale\<close> here.
\<close>

record provider =
  providerId :: ustring
  providerName :: ustring
  providerLocale :: ustring
  supportsBookPages :: bool
  ignoreErrors :: bool
  volumePrefix :: "ustring option"

text \<open>
  A JavaScript number that is an integer or \<^verbatim>\<open>NaN\<close>: the values a computed quality score
  and a collision counter take.
\<close>

datatype jsnumber = Finite int | NaN

text \<open>
  \<^verbatim>\<open>interface Book extends BBCBook\<close>. Optional fields are \<open>option\<close>s, \<open>None\<close> for
  \<^verbatim>\<open>undefined\<close> (and for the \<^verbatim>\<open>null\<close> of \<^verbatim>\<open>seriesId\<close>). Pixel dimensions are natural numbers.
\<close>

record book =
  bookId :: ustring
  title :: ustring
  cover :: ustring
  seriesId :: "ustring option"
  thumbnail :: ustring
  provider :: provider
  volumeName :: ustring
  volumeNumber :: ustring
  displayText :: ustring
  coverFormat :: "ustring option"
  coverHeight :: "nat option"
  coverWidth :: "nat option"
  coverIsCropped :: "bool option"
  originalCover :: "ustring option"
  originalThumbnail :: "ustring option"
  originalWidth :: "nat option"
  chromaSubsampling :: "ustring option"
  coverQualityScore :: "jsnumber option"
  selectedPage :: "nat option"

text \<open>JavaScript truthiness of optional numbers, strings and booleans, and \<^verbatim>\<open>x || d\<close>.\<close>

definition truthyNum :: "'a::zero option \<Rightarrow> bool" where
  "truthyNum x = (case x of None \<Rightarrow> False | Some v \<Rightarrow> v \<noteq> 0)"

definition truthyStr :: "ustring option \<Rightarrow> bool" where
  "truthyStr x = (case x of None \<Rightarrow> False | Some v \<Rightarrow> v \<noteq> [])"

definition truthyBool :: "bool option \<Rightarrow> bool" where
  "truthyBool x = (x = Some True)"

definition numOr :: "'a::zero option \<Rightarrow> 'a \<Rightarrow> 'a" where
  "numOr x d = (case x of None \<Rightarrow> d | Some v \<Rightarrow> if v = 0 then d else v)"

text \<open>\<^verbatim>\<open>x || 0\<close> on an optional number that may be \<^verbatim>\<open>NaN\<close>, which is falsy as 0 is.\<close>

definition scoreOr0 :: "jsnumber option \<Rightarrow> int" where
  "scoreOr0 x = (case x of None \<Rightarrow> 0 | Some NaN \<Rightarrow> 0 | Some (Finite v) \<Rightarrow> v)"

text \<open>
  A plain object, \<^verbatim>\<open>{}\<close> or an object literal, has its own properties, an association
  list here, and inherits the properties of \<^verbatim>\<open>Object.prototype\<close>, whose names are
  listed. Reading a key gives the own value, or an inherited function or object, or
  \<^verbatim>\<open>undefined\<close>. Every inherited value is truthy and none is a number.
\<close>

definition objectPrototypeKeys :: "ustring list" where
  "objectPrototypeKeys =
     [str ''constructor'', str ''__defineGetter__'', str ''__defineSetter__'',
      str ''hasOwnProperty'', str ''__lookupGetter__'', str ''__lookupSetter__'',
      str ''isPrototypeOf'', str ''propertyIsEnumerable'', str ''toString'', str ''valueOf'',
      str ''__proto__'', str ''toLocaleString'']"

datatype 'a property = Own 'a | Inherited | Absent

definition getProp :: "(ustring \<times> 'a) list \<Rightarrow> ustring \<Rightarrow> 'a property" where
  "getProp obj key =
     (case map_of obj key of
        Some v \<Rightarrow> Own v
      | None \<Rightarrow> if key \<in> set objectPrototypeKeys then Inherited else Absent)"

section \<open>Crop geometry and cover quality\<close>

text \<open>
  \<^verbatim>\<open>calculateCropAmount\<close>. JavaScript numbers are doubles; the model computes the aspect
  with exact real arithmetic on the integer pixel counts. A height of 0 makes the
  quotient infinite or NaN in JavaScript and 0 here; in both no aspect test passes.
\<close>

definition calculateCropAmount :: "nat \<Rightarrow> nat \<Rightarrow> int option" where
  "calculateCropAmount width height =
     (let aspect = real_of_int \<lfloor>(real width / real height) * 100\<rfloor> / 100 in
      if width \<ge> 880 \<and> width \<le> 964 \<and> height = 1200 then Some 120
      else if width \<ge> 220 \<and> width \<le> 241 \<and> height = 300 then Some 30
      else if height > 4000 \<and> aspect \<ge> 0.73 \<and> aspect < 0.8 then Some (- 355)
      else if width > 2000 \<and> height > 2000 \<and> aspect \<ge> 0.73 \<and> aspect < 0.8 then Some (- 211)
      else if width < 2000 \<and> height > 2000 \<and> aspect \<ge> 0.73 \<and> aspect < 0.8 then Some (- 224)
      else None)"

text \<open>
  The decision table of the specification, row by row in its order, with the aspect as
  the specification defines it, and the evaluation rule: the first matching row wins.
\<close>

definition spec_aspect :: "nat \<Rightarrow> nat \<Rightarrow> real" where
  "spec_aspect width height = real_of_int \<lfloor>real width / real height * 100\<rfloor> / 100"

definition crop_table :: "((nat \<Rightarrow> nat \<Rightarrow> bool) \<times> int) list" where
  "crop_table =
     [(\<lambda>w h. w \<in> {880..964} \<and> h = 1200, 120),
      (\<lambda>w h. w \<in> {220..241} \<and> h = 300, 30),
      (\<lambda>w h. h > 4000 \<and> spec_aspect w h \<in> {0.73..<0.80}, - 355),
      (\<lambda>w h. w > 2000 \<and> h > 2000 \<and> spec_aspect w h \<in> {0.73..<0.80}, - 211),
      (\<lambda>w h. w < 2000 \<and> h > 2000 \<and> spec_aspect w h \<in> {0.73..<0.80}, - 224)]"

fun first_match :: "(('a \<Rightarrow> 'b \<Rightarrow> bool) \<times> 'c) list \<Rightarrow> 'a \<Rightarrow> 'b \<Rightarrow> 'c option" where
  "first_match [] w h = None"
| "first_match ((cond, amount) # rows) w h =
     (if cond w h then Some amount else first_match rows w h)"

text \<open>
  \<^verbatim>\<open>String.prototype.toLowerCase\<close> on the ASCII letters. No code unit outside ASCII
  lower-cases to a letter of \<^verbatim>\<open>png\<close>, \<^verbatim>\<open>jpeg\<close>, \<^verbatim>\<open>jpg\<close> or \<^verbatim>\<open>webp\<close>, nor to one of
  \<^verbatim>\<open>constructor\<close> or \<^verbatim>\<open>__proto__\<close>, so the format lookup below is not affected by the
  other code units being left alone.
\<close>

definition toLowerCase :: "ustring \<Rightarrow> ustring" where
  "toLowerCase s = map (\<lambda>c. if 65 \<le> c \<and> c \<le> 90 then c + 32 else c) s"

definition formatScores :: "(ustring \<times> int) list" where
  "formatScores = [(str ''png'', 9), (str ''jpeg'', 6), (str ''jpg'', 6), (str ''webp'', 3)]"

definition chromaScores :: "(ustring \<times> int) list" where
  "chromaScores = [(str ''4:4:4'', 8), (str ''4:2:2'', 6), (str ''4:2:0'', 4)]"

text \<open>
  \<^verbatim>\<open>table[key] || d\<close> on a table of numbers: the own number, or \<open>d\<close> when it is 0 or the
  key is absent; \<open>None\<close> when the key names an inherited property, whose value is not a
  number.
\<close>

definition tableOr :: "(ustring \<times> int) list \<Rightarrow> ustring \<Rightarrow> int \<Rightarrow> int option" where
  "tableOr table key d =
     (case getProp table key of
        Own v \<Rightarrow> Some (if v = 0 then d else v)
      | Inherited \<Rightarrow> None
      | Absent \<Rightarrow> Some d)"

text \<open>
  \<^verbatim>\<open>getCoverQualityScore\<close>. \<^verbatim>\<open>Math.sqrt\<close>, the division and \<^verbatim>\<open>Math.floor\<close> are computed
  over the reals; \<^verbatim>\<open>Math.round\<close> rounds a half up, as \<^const>\<open>round\<close> does. When a table
  lookup gives an inherited function or object, the sum is a string concatenation, the
  division gives \<^verbatim>\<open>NaN\<close>, and so does \<^verbatim>\<open>Math.round\<close>.
\<close>

definition getCoverQualityScore :: "book \<Rightarrow> jsnumber" where
  "getCoverQualityScore book =
     (let resolution = numOr (coverWidth book) 0 * numOr (coverHeight book) 0;
          resScore = \<lfloor>sqrt (real resolution) / 20\<rfloor>;
          formatKey = map_option toLowerCase (coverFormat book);
          formatScore = (if truthyStr formatKey then tableOr formatScores (the formatKey) 0
                         else Some 0);
          isJpeg = (formatKey = Some (str ''jpeg'') \<or> formatKey = Some (str ''jpg''));
          chromaScore =
            (if isJpeg \<and> truthyStr (chromaSubsampling book)
             then tableOr chromaScores (the (chromaSubsampling book)) 4
             else Some 8)
      in case (formatScore, chromaScore) of
           (Some f, Some c) \<Rightarrow>
             (let totalScore = resScore + f + c in Finite (round (real_of_int totalScore / 2)))
         | _ \<Rightarrow> NaN)"

text \<open>
  The score as the specification words it: the resolution score, the format table with
  0 for an unknown format, and a chroma score that is 8 unless the format is jpeg or jpg,
  where the chroma table decides and any chroma it does not list gives 4.
\<close>

definition spec_resolutionScore :: "book \<Rightarrow> int" where
  "spec_resolutionScore book =
     \<lfloor>sqrt (real (numOr (coverWidth book) 0 * numOr (coverHeight book) 0)) / 20\<rfloor>"

definition spec_formatScore :: "ustring option \<Rightarrow> int" where
  "spec_formatScore fmt =
     (if fmt = Some (str ''png'') then 9
      else if fmt = Some (str ''jpeg'') \<or> fmt = Some (str ''jpg'') then 6
      else if fmt = Some (str ''webp'') then 3
      else 0)"

definition spec_chromaTable :: "ustring option \<Rightarrow> int" where
  "spec_chromaTable chroma =
     (if chroma = Some (str ''4:4:4'') then 8
      else if chroma = Some (str ''4:2:2'') then 6
      else if chroma = Some (str ''4:2:0'') then 4
      else 4)"

definition spec_chromaScore :: "ustring option \<Rightarrow> ustring option \<Rightarrow> int" where
  "spec_chromaScore fmt chroma =
     (if fmt = Some (str ''jpeg'') \<or> fmt = Some (str ''jpg'') then spec_chromaTable chroma else 8)"

definition spec_qualityScore :: "book \<Rightarrow> int" where
  "spec_qualityScore book =
     (let fmt = map_option toLowerCase (coverFormat book) in
      round (real_of_int (spec_resolutionScore book + spec_formatScore fmt
                          + spec_chromaScore fmt (chromaSubsampling book)) / 2))"

text \<open>
  The chroma score the code computes: the table is consulted only when the format is
  jpeg or jpg and the book carries a non-empty chroma-subsampling value.
\<close>

definition code_chromaScore :: "ustring option \<Rightarrow> ustring option \<Rightarrow> int" where
  "code_chromaScore fmt chroma =
     (if (fmt = Some (str ''jpeg'') \<or> fmt = Some (str ''jpg'')) \<and> chroma \<noteq> None \<and> chroma \<noteq> Some []
      then spec_chromaTable chroma else 8)"

text \<open>
  The books for which both table lookups give numbers: the lower-cased format, and for a
  jpeg or jpg the chroma-subsampling value, is not the name of an inherited property.
\<close>

definition plainKeys :: "book \<Rightarrow> bool" where
  "plainKeys book =
     (case map_option toLowerCase (coverFormat book) of
        None \<Rightarrow> True
      | Some k \<Rightarrow>
          if k = str ''jpeg'' \<or> k = str ''jpg''
          then (case chromaSubsampling book of
                  None \<Rightarrow> True
                | Some c \<Rightarrow> c \<notin> set objectPrototypeKeys)
          else k \<notin> set objectPrototypeKeys)"

text \<open>Books used as concrete inputs below.\<close>

definition test_provider :: provider where
  "test_provider = \<lparr>providerId = str ''p1'', providerName = str ''Provider One'',
     providerLocale = str ''en'', supportsBookPages = False, ignoreErrors = False,
     volumePrefix = None\<rparr>"

definition test_book :: "ustring option \<Rightarrow> nat \<Rightarrow> nat \<Rightarrow> ustring option \<Rightarrow> book" where
  "test_book fmt w h chroma =
     \<lparr>bookId = str ''b1'', title = str ''Volume 1'', cover = str ''https://covers/1'',
      seriesId = None, thumbnail = str ''https://thumbs/1'', provider = test_provider,
      volumeName = str ''Volume 1'', volumeNumber = str ''1'', displayText = str ''Volume 1'',
      coverFormat = fmt, coverHeight = Some h, coverWidth = Some w, coverIsCropped = None,
      originalCover = None, originalThumbnail = None, originalWidth = None,
      chromaSubsampling = chroma, coverQualityScore = None, selectedPage = None\<rparr>"

section \<open>Cropping covers\<close>

text \<open>
  The options of the image proxy's URL builder that the download page passes. The URL
  builder itself (\<^verbatim>\<open>WsrvApi.getUrl\<close>) lies outside the sources at hand and is a parameter
  \<open>getUrl\<close> of the functions below, giving the \<^verbatim>\<open>href\<close> of the URL it builds.
\<close>

record wsrv_options =
  opt_width :: "nat option"
  opt_height :: "nat option"
  opt_output :: "ustring option"
  opt_quality :: "nat option"
  opt_cw :: "int option"
  opt_cx :: "int option"

definition THUMBNAIL_DATA :: wsrv_options where
  "THUMBNAIL_DATA = \<lparr>opt_width = Some 336, opt_height = None, opt_output = Some (str ''jpg''),
     opt_quality = Some 60, opt_cw = None, opt_cx = None\<rparr>"

text \<open>The nullish coalescing \<^verbatim>\<open>x ?? d\<close>.\<close>

definition nullish :: "'a option \<Rightarrow> 'a \<Rightarrow> 'a" where
  "nullish x d = (case x of None \<Rightarrow> d | Some v \<Rightarrow> v)"

text \<open>
  The body of the loop of \<^verbatim>\<open>toggleCropCovers\<close> for one book, with the book returned as
  the loop leaves it. The crop format and quality are the values of the two settings.
  A crop amount is smaller than the width it is computed from
  (\<open>calculateCropAmount_bound\<close> below), so the subtraction on \<open>nat\<close> is the subtraction
  of the code.
\<close>

definition toggleCropCover ::
  "(ustring \<Rightarrow> wsrv_options \<Rightarrow> ustring) \<Rightarrow> ustring \<Rightarrow> nat \<Rightarrow> bool \<Rightarrow> book \<Rightarrow> book" where
  "toggleCropCover getUrl cropFormat cropQuality crop book =
     (if \<not> crop then
        (let b = book\<lparr>cover := nullish (originalCover book) (cover book),
                       thumbnail := nullish (originalThumbnail book) (thumbnail book),
                       coverWidth := (case originalWidth book of None \<Rightarrow> coverWidth book
                                      | Some w \<Rightarrow> Some w),
                       originalCover := None,
                       originalThumbnail := None,
                       originalWidth := None,
                       coverIsCropped := Some False\<rparr>
         in b\<lparr>coverQualityScore := Some (getCoverQualityScore b)\<rparr>)
      else if truthyBool (coverIsCropped book) then book
      else if \<not> truthyNum (coverHeight book) \<or> \<not> truthyNum (coverWidth book) then book
      else
        (let width = the (coverWidth book); height = the (coverHeight book) in
         case calculateCropAmount width height of
           None \<Rightarrow> book
         | Some cropAmount \<Rightarrow>
             if cropAmount = 0 then book
             else
               (let absoluteCropAmount = nat \<bar>cropAmount\<bar>;
                    croppedWidth = width - absoluteCropAmount;
                    cropUrl = getUrl (cover book)
                      \<lparr>opt_width = Some width, opt_height = Some height,
                       opt_output = Some cropFormat, opt_quality = Some cropQuality,
                       opt_cw = (if cropAmount > 0 then Some (int croppedWidth) else None),
                       opt_cx = (if cropAmount < 0 then Some (int absoluteCropAmount) else None)\<rparr>;
                    thumbnailAbsoluteCropAmount =
                      round (real absoluteCropAmount * (336 / real width));
                    thumbnailCroppedWidth = 336 - thumbnailAbsoluteCropAmount;
                    thumbnailCropUrl = getUrl (cover book)
                      (THUMBNAIL_DATA
                        \<lparr>opt_cw := (if cropAmount > 0 then Some thumbnailCroppedWidth else None),
                         opt_cx := (if cropAmount < 0 then Some thumbnailAbsoluteCropAmount else None)\<rparr>);
                    b = book\<lparr>originalCover := Some (cover book),
                              originalThumbnail := Some (thumbnail book),
                              originalWidth := Some width,
                              cover := cropUrl,
                              thumbnail := thumbnailCropUrl,
                              coverWidth := Some croppedWidth,
                              coverIsCropped := Some True\<rparr>
                in b\<lparr>coverQualityScore := Some (getCoverQualityScore b)\<rparr>)))"

definition toggleCropCovers ::
  "(ustring \<Rightarrow> wsrv_options \<Rightarrow> ustring) \<Rightarrow> ustring \<Rightarrow> nat \<Rightarrow> book list \<Rightarrow> bool \<Rightarrow> book list" where
  "toggleCropCovers getUrl cropFormat cropQuality books crop =
     map (toggleCropCover getUrl cropFormat cropQuality crop) books"

text \<open>
  A book with an applicable crop: not cropped, with both dimensions known and non-zero,
  and a crop amount for them (\<^verbatim>\<open>coverShouldBeCropped\<close>).
\<close>

definition cropApplicable :: "book \<Rightarrow> bool" where
  "cropApplicable b \<longleftrightarrow> \<not> truthyBool (coverIsCropped b) \<and> truthyNum (coverWidth b)
      \<and> truthyNum (coverHeight b)
      \<and> calculateCropAmount (the (coverWidth b)) (the (coverHeight b)) \<noteq> None"

text \<open>
  Concrete inputs: a URL builder, a book whose metadata was never fetched, and a png book
  of 900 by 1200 with its score as \<^verbatim>\<open>fetchBooks\<close> stores it.
\<close>

definition test_getUrl :: "ustring \<Rightarrow> wsrv_options \<Rightarrow> ustring" where
  "test_getUrl url opts =
     url @ (case opt_cw opts of None \<Rightarrow> [] | Some _ \<Rightarrow> str ''&cw'')
         @ (case opt_cx opts of None \<Rightarrow> [] | Some _ \<Rightarrow> str ''&cx'')"

definition unfetched_book :: book where
  "unfetched_book =
     \<lparr>bookId = str ''b2'', title = str ''Volume 2'', cover = str ''https://covers/2'',
      seriesId = None, thumbnail = str ''https://thumbs/2'', provider = test_provider,
      volumeName = str ''Volume 2'', volumeNumber = str ''2'', displayText = str ''Volume 2'',
      coverFormat = None, coverHeight = None, coverWidth = None, coverIsCropped = None,
      originalCover = None, originalThumbnail = None, originalWidth = None,
      chromaSubsampling = None, coverQualityScore = None, selectedPage = None\<rparr>"

definition fetched_book :: book where
  "fetched_book = (test_book (Some (str ''png'')) 900 1200 None)\<lparr>coverQualityScore := Some (Finite 34)\<rparr>"

section \<open>The automatic quality pick\<close>

text \<open>\<^verbatim>\<open>Array.prototype.findIndex\<close>: the first index whose element passes, or \<open>-1\<close>.\<close>

fun findIndex :: "('a \<Rightarrow> bool) \<Rightarrow> 'a list \<Rightarrow> int" where
  "findIndex P [] = - 1"
| "findIndex P (x # xs) =
     (if P x then 0 else (let i = findIndex P xs in if i < 0 then - 1 else i + 1))"

text \<open>
  \<^verbatim>\<open>Array.prototype.sort\<close> with a comparator is a stable sort. It is modelled by a stable
  insertion sort: an element goes in front of the first element it does not compare
  greater than. For a comparator that is a total preorder, as \<open>compareBooks\<close> is
  (\<open>winsOver_total\<close>, \<open>winsOver_trans\<close> below), every stable sort gives this result.
\<close>

fun sortInsert :: "('a \<Rightarrow> 'a \<Rightarrow> int) \<Rightarrow> 'a \<Rightarrow> 'a list \<Rightarrow> 'a list" where
  "sortInsert cmp x [] = [x]"
| "sortInsert cmp x (y # ys) = (if cmp x y \<le> 0 then x # y # ys else y # sortInsert cmp x ys)"

definition jsSort :: "('a \<Rightarrow> 'a \<Rightarrow> int) \<Rightarrow> 'a list \<Rightarrow> 'a list" where
  "jsSort cmp xs = foldr (sortInsert cmp) xs []"

text \<open>The comparator that \<^verbatim>\<open>automaticallyPickCovers\<close> sorts a volume group with.\<close>

definition compareBooks :: "nat \<Rightarrow> provider list \<Rightarrow> book \<Rightarrow> book \<Rightarrow> int" where
  "compareBooks selectedBookPage providers a b =
     (if selectedBookPage > 0 \<and> supportsBookPages (provider a) \<and> \<not> supportsBookPages (provider b)
      then - 1
      else if selectedBookPage > 0 \<and> \<not> supportsBookPages (provider a)
              \<and> supportsBookPages (provider b)
      then 1
      else
        (let qualityA = scoreOr0 (coverQualityScore a);
             qualityB = scoreOr0 (coverQualityScore b)
         in if qualityA \<noteq> qualityB then qualityB - qualityA
            else
              (let providerIndexA = findIndex (\<lambda>p. providerId p = providerId (provider a)) providers;
                   providerIndexB = findIndex (\<lambda>p. providerId p = providerId (provider b)) providers
               in providerIndexA - providerIndexB)))"

text \<open>
  Books are objects, and the set \<^verbatim>\<open>booksToKeep\<close> holds object references. A book in an
  array is modelled as a pair of its reference, a natural number, and its fields.
  \<open>groupPush\<close> is one step of the loop that fills \<^verbatim>\<open>booksByVolume\<close>, a map that is
  iterated in insertion order and is modelled as an association list.
\<close>

fun groupPush ::
  "(ustring \<times> (nat \<times> book) list) list \<Rightarrow> nat \<times> book \<Rightarrow> (ustring \<times> (nat \<times> book) list) list" where
  "groupPush [] b = [(volumeName (snd b), [b])]"
| "groupPush ((k, bs) # m) b =
     (if k = volumeName (snd b) then (k, bs @ [b]) # m else (k, bs) # groupPush m b)"

text \<open>
  The body of the second loop for one group: the references it adds to
  \<^verbatim>\<open>booksToKeep\<close>. An empty group, which the first loop never builds, would add
  \<^verbatim>\<open>undefined\<close>, which is no book's reference.
\<close>

definition pickOfGroup :: "nat \<Rightarrow> provider list \<Rightarrow> (nat \<times> book) list \<Rightarrow> nat list" where
  "pickOfGroup selectedBookPage providers volumeBooks =
     (if length volumeBooks = 1 then [fst (hd volumeBooks)]
      else (case jsSort (\<lambda>a b. compareBooks selectedBookPage providers (snd a) (snd b)) volumeBooks of
              [] \<Rightarrow> []
            | w # _ \<Rightarrow> [fst w]))"

definition automaticallyPickCovers ::
  "nat \<Rightarrow> provider list \<Rightarrow> (nat \<times> book) list \<Rightarrow> (nat \<times> book) list" where
  "automaticallyPickCovers selectedBookPage providers books =
     (let booksByVolume = foldl groupPush [] books;
          booksToKeep = concat (map (\<lambda>(k, volumeBooks).
                          pickOfGroup selectedBookPage providers volumeBooks) booksByVolume)
      in filter (\<lambda>book. fst book \<in> set booksToKeep) books)"

text \<open>
  The order of the specification on the candidates of a group: \<open>winsOver w y\<close> says that
  \<open>w\<close> sorts ahead of or level with \<open>y\<close>, first by page support when a page index is
  selected, then by the higher quality score, then by the earlier provider position.
\<close>

definition quality :: "book \<Rightarrow> int" where
  "quality b = scoreOr0 (coverQualityScore b)"

definition providerIndex :: "provider list \<Rightarrow> book \<Rightarrow> int" where
  "providerIndex providers b = findIndex (\<lambda>p. providerId p = providerId (provider b)) providers"

definition pagePreferred :: "nat \<Rightarrow> book \<Rightarrow> bool" where
  "pagePreferred selectedBookPage b \<longleftrightarrow> selectedBookPage > 0 \<and> supportsBookPages (provider b)"

definition winsOver :: "nat \<Rightarrow> provider list \<Rightarrow> book \<Rightarrow> book \<Rightarrow> bool" where
  "winsOver selectedBookPage providers w y \<longleftrightarrow>
     (if pagePreferred selectedBookPage w \<noteq> pagePreferred selectedBookPage y
      then pagePreferred selectedBookPage w
      else if quality w \<noteq> quality y then quality w > quality y
      else providerIndex providers w \<le> providerIndex providers y)"

text \<open>The lexicographic order on triples of integers, and the members of a volume group.\<close>

definition lex3 :: "int \<times> int \<times> int \<Rightarrow> int \<times> int \<times> int \<Rightarrow> bool" where
  "lex3 x y \<longleftrightarrow>
     (case (x, y) of ((p, q, i), (p', q', i')) \<Rightarrow>
        p < p' \<or> (p = p' \<and> (q < q' \<or> (q = q' \<and> i \<le> i'))))"

definition groupOf :: "ustring \<Rightarrow> (nat \<times> book) list \<Rightarrow> (nat \<times> book) list" where
  "groupOf k books = filter (\<lambda>b. volumeName (snd b) = k) books"

text \<open>Four books in two volume groups, from two providers.\<close>

definition example_providers :: "provider list" where
  "example_providers =
     [test_provider\<lparr>providerId := str ''a''\<rparr>,
      test_provider\<lparr>providerId := str ''b'', supportsBookPages := True\<rparr>]"

definition example_book :: "ustring \<Rightarrow> nat \<Rightarrow> jsnumber option \<Rightarrow> book" where
  "example_book v p q =
     (test_book (Some (str ''png'')) 900 1200 None)
       \<lparr>volumeName := v, provider := example_providers ! p, coverQualityScore := q\<rparr>"

definition example_books :: "(nat \<times> book) list" where
  "example_books =
     [(0, example_book (str ''Volume 1'') 0 (Some (Finite 30))),
      (1, example_book (str ''Volume 1'') 1 (Some (Finite 34))),
      (2, example_book (str ''Volume 2'') 1 (Some (Finite 3))),
      (3, example_book (str ''Volume 1'') 0 (Some (Finite 34)))]"

section \<open>The downloader and its collaborators\<close>

text \<open>
  The state of a \<^verbatim>\<open>Downloader\<close>, the values its collaborators return, and the effects
  it has on them. Byte buffers are lists of numbers.
\<close>

type_synonym bytes = "nat list"

datatype sort_order = Asc | Desc

record series =
  seriesIdent :: ustring
  seriesType :: ustring
  seriesTitle :: ustring
  seriesThumbnail :: ustring
  bookType :: "ustring option"
  publicationType :: "ustring option"
  seriesProvider :: provider

record bbc_series =
  bbcSeriesIdent :: ustring
  bbcSeriesType :: ustring
  bbcSeriesTitle :: ustring
  bbcSeriesThumbnail :: ustring
  bbcBookType :: "ustring option"
  bbcPublicationType :: "ustring option"

record bbc_book =
  bbcId :: ustring
  bbcTitle :: ustring
  bbcCover :: ustring
  bbcSeriesId :: "ustring option"

record bbc_book_page =
  bbcPageNumber :: nat
  bbcPageUrl :: ustring
  bbcPageType :: ustring
  bbcPageHeight :: nat
  bbcPageWidth :: nat
  bbcPageBookId :: ustring

record book_page =
  pageNumber :: nat
  pageUrl :: ustring
  pageType :: ustring
  pageHeight :: nat
  pageWidth :: nat
  pageBookId :: ustring
  pageProvider :: provider

text \<open>
  A result of the catalog client. Its \<^verbatim>\<open>data\<close> object is read in two ways: by key, which
  gives an array, a falsy value such as \<^verbatim>\<open>undefined\<close>, or a value that is not an array
  (a property that the object inherits), and through \<^verbatim>\<open>Object.entries\<close>. Counts and page
  numbers are integers, errors are their messages.
\<close>

datatype 'a lookup = Found 'a | Falsy | NotArray

record ('a) bbc_result =
  resData :: "ustring \<Rightarrow> 'a list lookup"
  resEntries :: "(ustring \<times> 'a list) list"
  resCount :: int
  resPages :: int
  resErrors :: "ustring list"

record image_info =
  infoFormat :: "ustring option"
  infoHeight :: "nat option"
  infoWidth :: "nat option"
  infoChromaSubsampling :: "ustring option"

record file_type =
  ext :: ustring
  mime :: ustring

text \<open>
  The calls the downloader makes to the catalog client and the image proxy, and the files
  it hands to the file saver: one file under a name, or a zip archive under a name, with
  its compression level and its entries.
\<close>

datatype request =
  GetSeries "(ustring \<times> ustring list) list"
| GetBooks "(ustring \<times> ustring list) list" "(ustring \<times> ustring list) list" sort_order int
| GetBookPages "(ustring \<times> ustring list) list"
| GetInfo ustring
| GetCovers "ustring list"

datatype saved = SavedFile ustring bytes | SavedZip ustring nat "(ustring \<times> bytes) list"

text \<open>
  The fields of the class that the modelled operations read or write, followed by the
  effects outside the object: the errors reported with \<^verbatim>\<open>addAppError\<close>, the flag
  \<^verbatim>\<open>appState.loading\<close>, the requests issued so far and the files saved so far. A
  \<^verbatim>\<open>Record<string, T>\<close> is given by its own properties in the order of their creation.
\<close>

record downloader =
  isFetching :: bool
  allSeriesIds :: "(ustring \<times> ustring list) list"
  allBookIds :: "(ustring \<times> ustring list) list"
  sortOrder :: sort_order
  automaticCoverQualityEnabled :: bool
  page :: int
  maxPage :: int
  incrementPages :: bool
  fetchedPages :: "int list"
  allBooks :: "book list"
  allSeries :: "series list"
  selectedBooks :: "book list"
  providers :: "provider list"
  selectedProviders :: "provider list"
  knownFilenames :: "(ustring \<times> jsnumber) list"
  downloadProgress :: "nat option"
  allBookPages :: "book_page list"
  selectedBookPage :: nat
  appErrors :: "ustring list"
  appLoading :: bool
  requests :: "request list"
  savedFiles :: "saved list"

text \<open>
  What the downloader is given: the answers of the catalog client and of the image proxy
  (\<open>None\<close> where a call throws), the helpers of \<^verbatim>\<open>utils.ts\<close> and the libraries, which
  are outside the sources at hand, the list of all providers, the values of the
  settings, and what the run time and the archive library make of a packaging run once
  the prototype of its image object has been replaced (see \<open>packStep\<close> below).
\<close>

record env =
  getSeries :: "(ustring \<times> ustring list) list \<Rightarrow> bbc_series bbc_result option"
  getBooks :: "(ustring \<times> ustring list) list \<Rightarrow> (ustring \<times> ustring list) list \<Rightarrow> sort_order \<Rightarrow> int
                 \<Rightarrow> bbc_book bbc_result option"
  getBookPages :: "(ustring \<times> ustring list) list \<Rightarrow> bbc_book_page bbc_result option"
  getCovers :: "ustring list \<Rightarrow> bytes option list option"
  getInfo :: "ustring \<Rightarrow> image_info option"
  getUrl :: "ustring \<Rightarrow> wsrv_options \<Rightarrow> ustring"
  fileTypeFromBuffer :: "bytes \<Rightarrow> file_type option"
  replaceTextVariables :: "ustring \<Rightarrow> (ustring \<times> ustring) list \<Rightarrow> ustring"
  getLocaleName :: "ustring \<Rightarrow> ustring"
  filterFilename :: "ustring \<Rightarrow> bool \<Rightarrow> ustring"
  getAllSvelteSearchParams :: "ustring \<Rightarrow> ustring list"
  allProviders :: "provider list"
  bookDisplayTextSetting :: ustring
  automaticCropSetting :: bool
  cropFormatSetting :: ustring
  cropQualitySetting :: nat
  coverFilenameSetting :: ustring
  coverPathSetting :: ustring
  zipFilenameSetting :: ustring
  afterPrototypeReplaced ::
    "downloader \<Rightarrow> (ustring \<times> bytes) list \<Rightarrow> bytes \<Rightarrow> (book \<times> bytes option) list
       \<Rightarrow> downloader"

section \<open>The text template engine\<close>

text \<open>\<^verbatim>\<open>Number.prototype.toString\<close> on integers: the decimal digits.\<close>

fun showNat :: "nat \<Rightarrow> ustring" where
  "showNat n = (if n < 10 then [48 + n] else showNat (n div 10) @ [48 + n mod 10])"

declare showNat.simps [simp del]

definition showInt :: "int \<Rightarrow> ustring" where
  "showInt i = (if i < 0 then 45 # showNat (nat (- i)) else showNat (nat i))"

text \<open>\<^verbatim>\<open>x || d\<close> on optional strings.\<close>

definition strOr :: "ustring option \<Rightarrow> ustring \<Rightarrow> ustring" where
  "strOr x d = (case x of None \<Rightarrow> d | Some v \<Rightarrow> if v = [] then d else v)"

text \<open>
  \<^verbatim>\<open>parseTextVariables\<close>, with the names of \<^verbatim>\<open>textVariables\<close> written out. The series
  list is the downloader's \<^verbatim>\<open>allSeries\<close>.
\<close>

definition parseTextVariables ::
  "env \<Rightarrow> series list \<Rightarrow> ustring \<Rightarrow> book option \<Rightarrow> ustring option \<Rightarrow> ustring" where
  "parseTextVariables e series text book extension =
     replaceTextVariables e text
       ((case book of
           None \<Rightarrow> []
         | Some b \<Rightarrow>
             [(str ''COVER_URL'', cover b),
              (str ''VOLUME_NAME'', volumeName b),
              (str ''VOLUME_NUMBER'', volumeNumber b),
              (str ''BOOK_TITLE'', title b),
              (str ''BOOK_ID'', bookId b),
              (str ''PROVIDER_NAME'', providerName (provider b)),
              (str ''PROVIDER_ID'', providerId (provider b)),
              (str ''PROVIDER_LANGUAGE_NAME'', getLocaleName e (providerLocale (provider b))),
              (str ''PROVIDER_LANGUAGE_CODE'', providerLocale (provider b)),
              (str ''BOOK_PAGE_NUMBER'', showNat (numOr (selectedPage b) 0)),
              (str ''BOOK_PAGE_NAME'',
                 if truthyNum (selectedPage b) then str ''Page '' @ showNat (the (selectedPage b))
                 else [])]
             @ (case find (\<lambda>s. Some (seriesIdent s) = seriesId b
                              \<and> providerId (seriesProvider s) = providerId (provider b)) series of
                  Some bookSeries \<Rightarrow>
                    [(str ''SERIES_TITLE'', seriesTitle bookSeries),
                     (str ''SERIES_THUMBNAIL_URL'', seriesThumbnail bookSeries),
                     (str ''SERIES_PUBLICATION_TYPE'', strOr (publicationType bookSeries) (str ''digital'')),
                     (str ''SERIES_BOOK_TYPE'', strOr (bookType bookSeries) []),
                     (str ''SERIES_TYPE'', seriesType bookSeries),
                     (str ''SERIES_ID'', seriesIdent bookSeries)]
                | None \<Rightarrow> [(str ''SERIES_ID'', strOr (seriesId b) (str ''0''))])
             @ [(str ''COVER_QUALITY_SCORE'',
                   (case coverQualityScore b of None \<Rightarrow> str ''0'' | Some NaN \<Rightarrow> str ''NaN''
                    | Some (Finite q) \<Rightarrow> showInt q)),
                (str ''COVER_WIDTH'',
                   (case coverWidth b of None \<Rightarrow> str ''0'' | Some w \<Rightarrow> showNat w)),
                (str ''COVER_HEIGHT'',
                   (case coverHeight b of None \<Rightarrow> str ''0'' | Some h \<Rightarrow> showNat h)),
                (str ''COVER_CROP_STATUS'',
                   if truthyBool (coverIsCropped b) then str ''cropped'' else str ''uncropped'')])
        @ (if truthyStr extension then [(str ''FILE_EXTENSION'', the extension)] else []))"

section \<open>The download packaging pipeline\<close>

text \<open>
  Assignment to a key of a record, \<^verbatim>\<open>lastIndexOf\<close> for one code unit, \<^verbatim>\<open>split\<close> at
  one code unit, \<^verbatim>\<open>startsWith\<close>, and reading an array of optional values at an index.
\<close>

fun recordSet :: "('k \<times> 'v) list \<Rightarrow> 'k \<Rightarrow> 'v \<Rightarrow> ('k \<times> 'v) list" where
  "recordSet [] k v = [(k, v)]"
| "recordSet ((k', v') # m) k v = (if k' = k then (k', v) # m else (k', v') # recordSet m k v)"

fun lastIndexOf :: "ustring \<Rightarrow> nat \<Rightarrow> int" where
  "lastIndexOf [] c = - 1"
| "lastIndexOf (x # xs) c =
     (let i = lastIndexOf xs c in if i \<ge> 0 then i + 1 else if x = c then 0 else - 1)"

fun splitOn :: "nat \<Rightarrow> ustring \<Rightarrow> ustring list" where
  "splitOn c [] = [[]]"
| "splitOn c (x # xs) =
     (if x = c then [] # splitOn c xs
      else (case splitOn c xs of [] \<Rightarrow> [[x]] | w # ws \<Rightarrow> (x # w) # ws))"

definition startsWith :: "ustring \<Rightarrow> ustring \<Rightarrow> bool" where
  "startsWith s p = (take (length p) s = p)"

definition nthOpt :: "'a option list \<Rightarrow> nat \<Rightarrow> 'a option" where
  "nthOpt xs i = (if i < length xs then xs ! i else None)"

text \<open>\<^verbatim>\<open>if (!provider.ignoreErrors) addAppError(new Error(msg))\<close>.\<close>

definition reportError :: "provider \<Rightarrow> ustring \<Rightarrow> downloader \<Rightarrow> downloader" where
  "reportError p msg s = (if \<not> ignoreErrors p then s\<lparr>appErrors := appErrors s @ [msg]\<rparr> else s)"

text \<open>
  Writing a number to a key of a plain object. The key \<^verbatim>\<open>__proto__\<close> is the inherited
  accessor, whose setter ignores a number; every other key becomes or stays an own
  property, the inherited properties of the other names being writable. The postfix
  \<^verbatim>\<open>++\<close> keeps \<^verbatim>\<open>NaN\<close>.
\<close>

definition setProp :: "(ustring \<times> jsnumber) list \<Rightarrow> ustring \<Rightarrow> jsnumber \<Rightarrow> (ustring \<times> jsnumber) list" where
  "setProp obj key v = (if key = str ''__proto__'' then obj else recordSet obj key v)"

definition increment :: "jsnumber \<Rightarrow> jsnumber" where
  "increment v = (case v of Finite n \<Rightarrow> Finite (n + 1) | NaN \<Rightarrow> NaN)"

text \<open>
  The order in which \<^verbatim>\<open>Object.keys\<close> and \<^verbatim>\<open>for ... in\<close> list the own properties of a
  plain object: first the keys that are array indices, the decimal numerals below
  \<open>2\<^sup>3\<^sup>2 - 1\<close> without a leading zero, in ascending numeric order, then the other keys in
  the order of their creation.
\<close>

definition indexValue :: "ustring \<Rightarrow> nat" where
  "indexValue k = foldl (\<lambda>n c. 10 * n + (c - 48)) 0 k"

definition isArrayIndex :: "ustring \<Rightarrow> bool" where
  "isArrayIndex k =
     (if k = [] then False
      else if list_ex (\<lambda>c. c < 48 \<or> 57 < c) k then False
      else if hd k = 48 \<and> length k > 1 then False
      else indexValue k < 4294967295)"

definition ownEntries :: "(ustring \<times> 'a) list \<Rightarrow> (ustring \<times> 'a) list" where
  "ownEntries obj =
     sort_key (\<lambda>p. indexValue (fst p)) (filter (\<lambda>p. isArrayIndex (fst p)) obj)
       @ filter (\<lambda>p. \<not> isArrayIndex (fst p)) obj"

definition ownKeys :: "(ustring \<times> 'a) list \<Rightarrow> ustring list" where
  "ownKeys obj = map fst (ownEntries obj)"

text \<open>
  The loop of \<^verbatim>\<open>downloadSelectedCovers\<close> works on the downloader, whose
  \<^verbatim>\<open>knownFilenames\<close> it updates, and on the local object \<^verbatim>\<open>imagesToZip\<close>, given by its own
  properties. \<^verbatim>\<open>$state\<close> wraps \<^verbatim>\<open>knownFilenames\<close> in a reactive proxy, which is taken to
  answer as the plain object it wraps.

  Storing a cover under the name \<^verbatim>\<open>__proto__\<close> adds no property: the assignment makes
  the byte array the prototype of \<^verbatim>\<open>imagesToZip\<close>. What later assignments, the key count
  and the archive library make of an object that inherits from a typed array is not
  followed here: the loop then only collects the entries it has not processed, and the
  rest of the \<^verbatim>\<open>try\<close> statement is the parameter \<open>afterPrototypeReplaced\<close> of the
  environment.
\<close>

datatype packed =
  Stored downloader "(ustring \<times> bytes) list"
| PrototypeReplaced downloader "(ustring \<times> bytes) list" bytes "(book \<times> bytes option) list"

text \<open>
  The body of the loop, for one book and its entry of the fetched images. The counter of
  the rendered name is read three times: for the test against \<^verbatim>\<open>undefined\<close>, where an
  inherited property is not \<^verbatim>\<open>undefined\<close> and is incremented to \<^verbatim>\<open>NaN\<close>; for the test
  \<^verbatim>\<open>isKnownName\<close>, which holds of a positive number only; and for the new name.
\<close>

definition packStep :: "env \<Rightarrow> packed \<Rightarrow> book \<times> bytes option \<Rightarrow> packed" where
  "packStep e acc entry =
     (case acc of
        PrototypeReplaced s imagesToZip proto pending \<Rightarrow>
          PrototypeReplaced s imagesToZip proto (pending @ [entry])
      | Stored s imagesToZip \<Rightarrow>
          (let (book, image) = entry in
           case image of
             None \<Rightarrow>
               Stored
                 (reportError (provider book)
                    (str ''Failed to download cover for '' @ providerName (provider book)
                       @ str '' - '' @ title book) s)
                 imagesToZip
           | Some imageBuffer \<Rightarrow>
               (let imageFileType = fileTypeFromBuffer e imageBuffer in
                if imageFileType = None \<or> \<not> startsWith (mime (the imageFileType)) (str ''image/'')
                then
                  Stored
                    (reportError (provider book)
                       (str ''Cover for '' @ providerName (provider book) @ str '' - '' @ title book
                          @ str '' is not an image: ''
                          @ (case imageFileType of None \<Rightarrow> str ''unknown''
                             | Some t \<Rightarrow> if mime t = [] then str ''unknown'' else mime t)) s)
                    imagesToZip
                else
                  (let imagePath =
                         parseTextVariables e (allSeries s) (coverPathSetting e) (Some book) None;
                       imageFileName = filterFilename e
                         ((if imagePath \<noteq> [] then imagePath @ str ''/'' else [])
                            @ parseTextVariables e (allSeries s) (coverFilenameSetting e) (Some book)
                                (Some (ext (the imageFileType))))
                         True;
                       known =
                         (case getProp (knownFilenames s) imageFileName of
                            Absent \<Rightarrow> setProp (knownFilenames s) imageFileName (Finite 0)
                          | Own v \<Rightarrow> setProp (knownFilenames s) imageFileName (increment v)
                          | Inherited \<Rightarrow> setProp (knownFilenames s) imageFileName NaN);
                       finalName =
                         (case getProp known imageFileName of
                            Own (Finite count) \<Rightarrow>
                              if count > 0 then
                                (let lastDotIndex = lastIndexOf imageFileName 46 in
                                 if lastDotIndex > 0 then
                                   (let nameWithoutExt = take (nat lastDotIndex) imageFileName;
                                        extension = drop (nat lastDotIndex) imageFileName
                                    in filterFilename e
                                         (nameWithoutExt @ str '' ('' @ showInt count @ str '')''
                                            @ extension)
                                         True)
                                 else filterFilename e
                                        (imageFileName @ str '' ('' @ showInt count @ str '')'') True)
                              else imageFileName
                          | _ \<Rightarrow> imageFileName)
                   in if finalName = str ''__proto__''
                      then PrototypeReplaced (s\<lparr>knownFilenames := known\<rparr>) imagesToZip imageBuffer []
                      else Stored (s\<lparr>knownFilenames := known\<rparr>)
                             (recordSet imagesToZip finalName imageBuffer)))))"

text \<open>
  The end of the \<^verbatim>\<open>try\<close> block: nothing, one file, or one archive at level 0. The
  archive library receives the object; its entries are the own properties in the order
  of enumeration.
\<close>

definition saveImages :: "env \<Rightarrow> downloader \<Rightarrow> (ustring \<times> bytes) list \<Rightarrow> downloader" where
  "saveImages e s imagesToZip =
     (let imagesToZipTotal = length (ownKeys imagesToZip) in
      if imagesToZipTotal = 0 then s
      else if imagesToZipTotal = 1 then
        (let (imageKey, image) = hd (ownEntries imagesToZip);
             filename = last (splitOn 47 imageKey)
         in s\<lparr>savedFiles := savedFiles s
                 @ [SavedFile (if filename = [] then str ''cover.jpg'' else filename) image]\<rparr>)
      else
        (let zipName = parseTextVariables e (allSeries s) (zipFilenameSetting e) None (Some (str ''zip''))
         in s\<lparr>savedFiles := savedFiles s
                 @ [SavedZip (if zipName = [] then str ''covers.zip'' else zipName) 0
                      (ownEntries imagesToZip)]\<rparr>))"

definition endOfLoop :: "env \<Rightarrow> packed \<Rightarrow> downloader" where
  "endOfLoop e acc =
     (case acc of
        Stored s imagesToZip \<Rightarrow> saveImages e s imagesToZip
      | PrototypeReplaced s imagesToZip proto pending \<Rightarrow>
          afterPrototypeReplaced e s imagesToZip proto pending)"

text \<open>
  \<^verbatim>\<open>downloadSelectedCovers\<close>. The bulk fetch of the cover bytes is the collaborator
  \<open>getCovers\<close>; its progress callback has reported every URL when it returns.
\<close>

definition downloadSelectedCovers :: "env \<Rightarrow> downloader \<Rightarrow> downloader" where
  "downloadSelectedCovers e s =
     (if downloadProgress s \<noteq> None then s
      else
        (let s0 = s\<lparr>downloadProgress := Some 0\<rparr>;
             urls = map cover (selectedBooks s0);
             s1 = s0\<lparr>requests := requests s0 @ [GetCovers urls]\<rparr>;
             s2 = (case getCovers e urls of
                     None \<Rightarrow> s1\<lparr>appErrors := appErrors s1 @ [str ''Failed to download covers'']\<rparr>
                   | Some images \<Rightarrow>
                       (let s' = s1\<lparr>downloadProgress := Some (length urls)\<rparr>;
                            entries = map (\<lambda>i. (selectedBooks s' ! i, nthOpt images i))
                                        [0..<length (selectedBooks s')]
                        in endOfLoop e (foldl (packStep e) (Stored s' []) entries)))
         in s2\<lparr>knownFilenames := [], downloadProgress := None\<rparr>))"

text \<open>
  Notions to state the collision rule with. The name a book renders to, path included,
  and the name of an eligible entry, one with bytes that sniff as an image.
\<close>

definition renderedName :: "env \<Rightarrow> downloader \<Rightarrow> book \<Rightarrow> file_type \<Rightarrow> ustring" where
  "renderedName e s book ft =
     (let imagePath = parseTextVariables e (allSeries s) (coverPathSetting e) (Some book) None
      in filterFilename e
           ((if imagePath \<noteq> [] then imagePath @ str ''/'' else [])
              @ parseTextVariables e (allSeries s) (coverFilenameSetting e) (Some book) (Some (ext ft)))
           True)"

definition eligibleName :: "env \<Rightarrow> downloader \<Rightarrow> book \<times> bytes option \<Rightarrow> ustring option" where
  "eligibleName e s entry =
     (case snd entry of
        None \<Rightarrow> None
      | Some imageBuffer \<Rightarrow>
          (case fileTypeFromBuffer e imageBuffer of
             None \<Rightarrow> None
           | Some ft \<Rightarrow>
               if startsWith (mime ft) (str ''image/'')
               then Some (renderedName e s (fst entry) ft) else None))"

text \<open>
  A name cut at its last dot: the part before the dot, and the part from the dot on.
  The counter \<open>n\<close> goes between the two when there is a last dot and something in front
  of it, and to the end of the name otherwise. The dot is the last one of the whole
  name, whether it lies in the file name or in the path.
\<close>

fun splitLastDot :: "ustring \<Rightarrow> (ustring \<times> ustring) option" where
  "splitLastDot [] = None"
| "splitLastDot (c # cs) =
     (case splitLastDot cs of
        Some (front, back) \<Rightarrow> Some (c # front, back)
      | None \<Rightarrow> if c = 46 then Some ([], c # cs) else None)"

definition counterSuffix :: "nat \<Rightarrow> ustring" where
  "counterSuffix n = str '' ('' @ showNat n @ str '')''"

definition insertCounter :: "ustring \<Rightarrow> nat \<Rightarrow> ustring" where
  "insertCounter name n =
     (case splitLastDot name of
        None \<Rightarrow> name @ counterSuffix n
      | Some (front, back) \<Rightarrow>
          if front = [] then name @ counterSuffix n else front @ counterSuffix n @ back)"


text \<open>
  The name an entry is stored under when \<open>n\<close> eligible entries before it rendered the
  same name, the number of eligible entries of a list that render a given name, and the
  counter a name has after \<open>c\<close> eligible entries rendered it.
\<close>

definition resolvedName :: "env \<Rightarrow> ustring \<Rightarrow> nat \<Rightarrow> ustring" where
  "resolvedName e name n = (if n = 0 then name else filterFilename e (insertCounter name n) True)"

definition sameNameBefore :: "env \<Rightarrow> downloader \<Rightarrow> (book \<times> bytes option) list \<Rightarrow> ustring \<Rightarrow> nat" where
  "sameNameBefore e s entries name = length (filter (\<lambda>x. eligibleName e s x = Some name) entries)"

definition counterAfter :: "nat \<Rightarrow> jsnumber option" where
  "counterAfter c = (if c = 0 then None else Some (Finite (int c - 1)))"

text \<open>
  The entries of a run, each selected book with the image at its index; the state the
  loop starts in; the eligible entries of a list in order, each with the name it is
  stored under; and the object that results from storing entries one after the other,
  a later entry replacing an earlier one of the same name.
\<close>

definition runEntries :: "downloader \<Rightarrow> bytes option list \<Rightarrow> (book \<times> bytes option) list" where
  "runEntries s images =
     map (\<lambda>i. (selectedBooks s ! i, nthOpt images i)) [0..<length (selectedBooks s)]"

definition loopStart :: "downloader \<Rightarrow> downloader" where
  "loopStart s =
     s\<lparr>requests := requests s @ [GetCovers (map cover (selectedBooks s))],
       downloadProgress := Some (length (selectedBooks s))\<rparr>"

definition namedEntries ::
  "env \<Rightarrow> downloader \<Rightarrow> (book \<times> bytes option) list \<Rightarrow> (ustring \<times> bytes) list" where
  "namedEntries e s entries =
     concat (map (\<lambda>i. case eligibleName e s (entries ! i) of
                         None \<Rightarrow> []
                       | Some name \<Rightarrow>
                           [(resolvedName e name (sameNameBefore e s (take i entries) name),
                             the (snd (entries ! i)))])
               [0..<length entries])"

definition storeAll :: "(ustring \<times> bytes) list \<Rightarrow> (ustring \<times> bytes) list" where
  "storeAll named = foldl (\<lambda>obj entry. recordSet obj (fst entry) (snd entry)) [] named"

text \<open>
  The runs the collision rule is stated for: no eligible entry renders the name of a
  property that a plain object inherits, and no entry is stored under \<^verbatim>\<open>__proto__\<close>.
\<close>

definition plainNames :: "env \<Rightarrow> downloader \<Rightarrow> (book \<times> bytes option) list \<Rightarrow> bool" where
  "plainNames e s entries =
     (list_all (\<lambda>x. case eligibleName e s x of
                      None \<Rightarrow> True
                    | Some name \<Rightarrow> name \<notin> set objectPrototypeKeys) entries
      \<and> list_all (\<lambda>entry. fst entry \<noteq> str ''__proto__'') (namedEntries e s entries))"

text \<open>
  A concrete environment: a stand-in for the template substitution that knows two
  filename templates, an image proxy and catalog that return nothing, a bulk fetch that
  returns each URL as its bytes, and a sniffer that finds a jpeg.
\<close>

definition test_replace :: "ustring \<Rightarrow> (ustring \<times> ustring) list \<Rightarrow> ustring" where
  "test_replace text vars =
     (if text = str ''{BOOK_TITLE}.{FILE_EXTENSION}''
      then strOr (map_of vars (str ''BOOK_TITLE'')) [] @ str ''.''
             @ strOr (map_of vars (str ''FILE_EXTENSION'')) []
      else if text = str ''{BOOK_TITLE}''
      then strOr (map_of vars (str ''BOOK_TITLE'')) []
      else text)"

definition test_env :: env where
  "test_env =
     \<lparr>getSeries = (\<lambda>ids. None),
      getBooks = (\<lambda>seriesIds bookIds sort p.
         Some \<lparr>resData = (\<lambda>k. Falsy), resEntries = [], resCount = 0, resPages = 1,
               resErrors = []\<rparr>),
      getBookPages = (\<lambda>ids. None),
      getCovers = (\<lambda>urls. Some (map Some urls)),
      getInfo = (\<lambda>url. None),
      getUrl = test_getUrl,
      fileTypeFromBuffer = (\<lambda>buf. Some \<lparr>ext = str ''jpg'', mime = str ''image/jpeg''\<rparr>),
      replaceTextVariables = test_replace,
      getLocaleName = (\<lambda>l. l),
      filterFilename = (\<lambda>name isPath. name),
      getAllSvelteSearchParams = (\<lambda>k. []),
      allProviders = [test_provider],
      bookDisplayTextSetting = str ''{VOLUME_NAME}'',
      automaticCropSetting = True,
      cropFormatSetting = str ''jpg'',
      cropQualitySetting = 98,
      coverFilenameSetting = str ''{BOOK_TITLE}.{FILE_EXTENSION}'',
      coverPathSetting = [],
      zipFilenameSetting = str ''covers.zip'',
      afterPrototypeReplaced = (\<lambda>s imagesToZip proto pending. s)\<rparr>"

definition titled_book :: "ustring \<Rightarrow> ustring \<Rightarrow> book" where
  "titled_book t c = unfetched_book\<lparr>title := t, cover := c\<rparr>"

definition test_downloader :: "book list \<Rightarrow> downloader" where
  "test_downloader books =
     \<lparr>isFetching = False, allSeriesIds = [], allBookIds = [], sortOrder = Asc,
      automaticCoverQualityEnabled = True, page = 1, maxPage = 1, incrementPages = False,
      fetchedPages = [], allBooks = books, allSeries = [], selectedBooks = books,
      providers = [test_provider], selectedProviders = [test_provider], knownFilenames = [],
      downloadProgress = None, allBookPages = [], selectedBookPage = 0, appErrors = [],
      appLoading = False, requests = [], savedFiles = []\<rparr>"


definition collide_books :: "book list" where
  "collide_books =
     [titled_book (str ''a'') (str ''c1''), titled_book (str ''a (1)'') (str ''c2''),
      titled_book (str ''a'') (str ''c3'')]"

text \<open>
  Two books that render \<open>my.dir/file\<close>, a name with a dot in the path and none in the
  file name, and two books that render \<open>constructor\<close>.
\<close>

definition dir_env :: env where
  "dir_env = test_env\<lparr>coverFilenameSetting := str ''{BOOK_TITLE}'', coverPathSetting := str ''my.dir''\<rparr>"


definition title_env :: env where
  "title_env = test_env\<lparr>coverFilenameSetting := str ''{BOOK_TITLE}''\<rparr>"


section \<open>Regular expressions\<close>

text \<open>
  The regular expressions of the title parser are built from tests on one code unit,
  sequence, alternative, the greedy quantifiers \<^verbatim>\<open>?\<close> and \<^verbatim>\<open>+\<close>, and one capture group.
  \<open>rmatch r s\<close> lists the ways \<open>r\<close> matches a prefix of \<open>s\<close>, in the order in which a
  backtracking matcher tries them: each way is the text captured, if the group took part,
  and the rest of \<open>s\<close>. An iteration of \<^verbatim>\<open>+\<close> that consumed nothing is not repeated.
\<close>

datatype re =
  Chr "nat \<Rightarrow> bool"
| Seq re re
| Alt re re
| Opt re
| Plus re
| Cap re

fun rmatch :: "re \<Rightarrow> ustring \<Rightarrow> (ustring option \<times> ustring) list" where
  "rmatch (Chr P) s = (case s of [] \<Rightarrow> [] | c # cs \<Rightarrow> if P c then [(None, cs)] else [])"
| "rmatch (Seq a b) s =
     concat (map (\<lambda>m1. map (\<lambda>m2. (case fst m2 of None \<Rightarrow> fst m1 | Some c \<Rightarrow> Some c, snd m2))
                          (rmatch b (snd m1)))
                 (rmatch a s))"
| "rmatch (Alt a b) s = rmatch a s @ rmatch b s"
| "rmatch (Opt a) s = rmatch a s @ [(None, s)]"
| "rmatch (Plus a) s =
     concat (map (\<lambda>m1. (if length (snd m1) < length s then rmatch (Plus a) (snd m1) else [])
                        @ [m1])
                 (rmatch a s))"
| "rmatch (Cap a) s =
     map (\<lambda>m. (Some (take (length s - length (snd m)) s), snd m)) (rmatch a s)"

declare rmatch.simps(5) [simp del]

text \<open>
  The first match of \<open>r\<close> in \<open>s\<close>, as \<^verbatim>\<open>exec\<close> finds it from index 0: the leftmost start
  at which \<open>r\<close> matches, with the first way it matches there. The result is the matched
  text, the capture and the rest of the string.
\<close>

fun searchRe :: "re \<Rightarrow> ustring \<Rightarrow> (ustring \<times> ustring option \<times> ustring) option" where
  "searchRe r [] =
     (case rmatch r [] of [] \<Rightarrow> None | m # _ \<Rightarrow> Some ([], fst m, snd m))"
| "searchRe r (x # xs) =
     (case rmatch r (x # xs) of
        [] \<Rightarrow> searchRe r xs
      | m # _ \<Rightarrow> Some (take (length (x # xs) - length (snd m)) (x # xs), fst m, snd m))"

text \<open>
  All matches of a regular expression with the flag \<^verbatim>\<open>g\<close>, from left to right: the
  search goes on behind a match, and one code unit further when the match is empty.
\<close>

function matchAll :: "re \<Rightarrow> ustring \<Rightarrow> (ustring \<times> ustring option) list" where
  "matchAll r s =
     (case searchRe r s of
        None \<Rightarrow> []
      | Some (t, c, rest) \<Rightarrow>
          (t, c) # (if t \<noteq> [] then matchAll r rest
               else (case rest of [] \<Rightarrow> [] | _ # rest' \<Rightarrow> matchAll r rest')))"
  by pat_completeness auto
termination
proof (relation "measure (\<lambda>(r, s). length s)")
  have suffix: "\<exists>p. s = p @ snd m" if "m \<in> set (rmatch r s)" for r s m
    using that
  proof (induction r s arbitrary: m rule: rmatch.induct)
    case (1 P s)
    show ?case
    proof (cases s)
      case Nil
      with "1.prems" show ?thesis by simp
    next
      case (Cons c cs)
      with "1.prems" have "snd m = cs" by (simp split: if_splits)
      then show ?thesis using Cons by simp
    qed
  next
    case (2 a b s)
    from "2.prems" obtain m1 m2 where m: "m1 \<in> set (rmatch a s)" "m2 \<in> set (rmatch b (snd m1))"
      "snd m = snd m2" by auto
    from "2.IH"(1)[OF m(1)] obtain p1 where p1: "s = p1 @ snd m1" by blast
    from "2.IH"(2)[OF m(1) m(2)] obtain p2 where p2: "snd m1 = p2 @ snd m2" by blast
    have "s = (p1 @ p2) @ snd m" using p1 p2 m(3) by simp
    then show ?case by (rule exI)
  next
    case (3 a b s)
    from "3.prems" have "m \<in> set (rmatch a s) \<or> m \<in> set (rmatch b s)" by simp
    then show ?case
    proof
      assume "m \<in> set (rmatch a s)"
      from "3.IH"(1)[OF this] show ?thesis .
    next
      assume "m \<in> set (rmatch b s)"
      from "3.IH"(2)[OF this] show ?thesis .
    qed
  next
    case (4 a s)
    from "4.prems" have "m \<in> set (rmatch a s) \<or> m = (None, s)" by auto
    then show ?case
    proof
      assume "m \<in> set (rmatch a s)"
      from "4.IH"[OF this] show ?thesis .
    next
      assume "m = (None, s)"
      then have "s = [] @ snd m" by simp
      then show ?thesis by (rule exI)
    qed
  next
    case (5 a s)
    have e: "rmatch (Plus a) s =
       concat (map (\<lambda>m1. (if length (snd m1) < length s then rmatch (Plus a) (snd m1) else [])
                          @ [m1])
                   (rmatch a s))"
      by (rule rmatch.simps(5))
    from "5.prems"[unfolded e] obtain m1 where m1: "m1 \<in> set (rmatch a s)"
      and d: "(length (snd m1) < length s \<and> m \<in> set (rmatch (Plus a) (snd m1))) \<or> m = m1"
      by (auto split: if_splits)
    from "5.IH"(1)[OF m1] obtain p1 where p1: "s = p1 @ snd m1" by blast
    from d show ?case
    proof
      assume a: "length (snd m1) < length s \<and> m \<in> set (rmatch (Plus a) (snd m1))"
      from "5.IH"(2)[OF m1 conjunct1[OF a] conjunct2[OF a]] obtain p2 where "snd m1 = p2 @ snd m"
        by blast
      then have "s = (p1 @ p2) @ snd m" using p1 by simp
      then show ?thesis by (rule exI)
    next
      assume "m = m1"
      then have "s = p1 @ snd m" using p1 by simp
      then show ?thesis by (rule exI)
    qed
  next
    case (6 a s)
    from "6.prems" obtain m' where m': "m' \<in> set (rmatch a s)" "snd m = snd m'" by auto
    from "6.IH"[OF m'(1)] obtain p where "s = p @ snd m'" by blast
    then have "s = p @ snd m" using m'(2) by simp
    then show ?case by (rule exI)
  qed
  have shorter: "length (snd m) \<le> length s" if "m \<in> set (rmatch r s)" for r s m
    using suffix[OF that] by auto
  have found: "length rest \<le> length s \<and> (t \<noteq> [] \<longrightarrow> length rest < length s)"
    if "searchRe r s = Some (t, c, rest)" for r s t c rest
    using that
  proof (induction s)
    case Nil
    then obtain m ms where "rmatch r [] = m # ms" "rest = snd m" "t = []"
      by (auto split: list.splits)
    then show ?case using shorter[of m r "[]"] by simp
  next
    case (Cons x xs)
    show ?case
    proof (cases "rmatch r (x # xs)")
      assume e: "rmatch r (x # xs) = []"
      then have "searchRe r xs = Some (t, c, rest)" using Cons.prems by simp
      from Cons.IH[OF this] show ?thesis by auto
    next
      fix m ms assume e: "rmatch r (x # xs) = m # ms"
      then have l: "length (snd m) \<le> length (x # xs)"
        using shorter[of m r "x # xs"] by simp
      from e Cons.prems have r: "rest = snd m"
        and t: "t = take (length (x # xs) - length (snd m)) (x # xs)" by auto
      have "t \<noteq> [] \<Longrightarrow> length rest < length (x # xs)"
        using l by (cases "length (snd m) = length (x # xs)") (simp_all add: t r)
      then show ?thesis using l r by blast
    qed
  qed
  show "wf (measure (\<lambda>(r, s). length s))" by simp
  show "((r, rest), (r, s)) \<in> measure (\<lambda>(r, s). length s)"
    if "searchRe r s = Some x2" "(t, y) = x2" "(c, rest) = y" "t \<noteq> []"
    for r s x2 t y c rest
  proof -
    from that have "searchRe r s = Some (t, c, rest)" by simp
    from found[OF this] \<open>t \<noteq> []\<close> show ?thesis by simp
  qed
  show "((r, rest'), (r, s)) \<in> measure (\<lambda>(r, s). length s)"
    if "searchRe r s = Some x2" "(t, y) = x2" "(c, rest) = y" "\<not> t \<noteq> []" "rest = x21 # rest'"
    for r s x2 t y c rest x21 rest'
  proof -
    from that have "searchRe r s = Some (t, c, rest)" by simp
    from found[OF this] \<open>rest = x21 # rest'\<close> show ?thesis by simp
  qed
qed

declare matchAll.simps [simp del]

section \<open>The volume number of a title\<close>

text \<open>
  The character classes \<^verbatim>\<open>\d\<close> and \<^verbatim>\<open>\s\<close>, a literal code unit, a literal under the
  flag \<^verbatim>\<open>i\<close>, which matches the two cases of an ASCII letter and no code unit outside
  ASCII, and a word of literals.
\<close>

definition isDigit :: "nat \<Rightarrow> bool" where
  "isDigit c \<longleftrightarrow> 48 \<le> c \<and> c \<le> 57"

definition isSpace :: "nat \<Rightarrow> bool" where
  "isSpace c \<longleftrightarrow>
     c \<in> {9, 10, 11, 12, 13, 32, 160, 0x1680, 0x2028, 0x2029, 0x202F, 0x205F, 0x3000, 0xFEFF}
     \<or> (0x2000 \<le> c \<and> c \<le> 0x200A)"

definition lit :: "char \<Rightarrow> re" where
  "lit c = Chr (\<lambda>x. x = of_char c)"

definition litI :: "char \<Rightarrow> re" where
  "litI c = Chr (\<lambda>x. toLowerCase [x] = toLowerCase [of_char c])"

fun word :: "(char \<Rightarrow> re) \<Rightarrow> string \<Rightarrow> re" where
  "word f [] = Opt (Chr (\<lambda>x. False))"
| "word f [c] = f c"
| "word f (c # cs) = Seq (f c) (word f cs)"

text \<open>
  The regular expressions of \<^verbatim>\<open>getVolumeNumber\<close>: \<^verbatim>\<open>\d+(?:(?:\.\d+)+)?\<close> for a
  number, the four patterns that look for it, and \<^verbatim>\<open>(?:0+)?(\d+(?:(?:\.\d+)+)?)\<close>.
\<close>

definition numberRe :: re where
  "numberRe = Seq (Plus (Chr isDigit)) (Opt (Plus (Seq (lit CHR ''.'') (Plus (Chr isDigit)))))"

definition markerRe :: re where
  "markerRe =
     Seq (Alt (Seq (word litI ''Volume'') (Plus (Chr isSpace)))
         (Alt (Seq (word litI ''Chapter'') (Plus (Chr isSpace)))
         (Alt (word litI ''vol.'') (word litI ''No.''))))
       (Cap numberRe)"

definition parenRe :: re where
  "parenRe = Seq (lit CHR ''('') (Seq (Cap numberRe) (lit CHR '')''))"

definition spacedRe :: re where
  "spacedRe = Seq (lit CHR '' '') (Seq (Cap numberRe) (lit CHR '' ''))"

definition anyNumberRe :: re where
  "anyNumberRe = Cap numberRe"

definition zeroStripRe :: re where
  "zeroStripRe = Seq (Opt (Plus (lit CHR ''0''))) (Cap numberRe)"

text \<open>
  The code units of \<^verbatim>\<open>[\<close>\<open>\<dots>\<close>\<^verbatim>\<open>]\<close> in the first replacement, which are the full-width
  full stop, the comma, the number sign, the solidus, the full-width solidus, the
  katakana middle dot and the signs for year and month, and the full-width digits.
\<close>

definition separators :: "nat list" where
  "separators = [0xFF0E, 44, 35, 47, 0xFF0F, 0x30FB, 0x5E74, 0x6708]"

definition japaneseCharacters :: "nat list" where
  "japaneseCharacters =
     [0xFF10, 0xFF11, 0xFF12, 0xFF13, 0xFF14, 0xFF15, 0xFF16, 0xFF17, 0xFF18, 0xFF19]"

text \<open>
  \<^verbatim>\<open>replaceAll\<close> of one code unit; \<^verbatim>\<open>match\<close> without the flag \<^verbatim>\<open>g\<close>, which gives the
  first match and its capture, and with it, which gives the texts of all matches, each
  \<^verbatim>\<open>null\<close> when there is no match; \<^verbatim>\<open>||\<close> on such results; and \<^verbatim>\<open>pop\<close>.
\<close>

definition replaceAll :: "ustring \<Rightarrow> nat \<Rightarrow> ustring \<Rightarrow> ustring" where
  "replaceAll s character replacement =
     concat (map (\<lambda>c. if c = character then replacement else [c]) s)"

definition matchOnce :: "re \<Rightarrow> ustring \<Rightarrow> ustring option list option" where
  "matchOnce r s =
     (case searchRe r s of None \<Rightarrow> None | Some (t, c, rest) \<Rightarrow> Some [Some t, c])"

definition matchGlobal :: "re \<Rightarrow> ustring \<Rightarrow> ustring option list option" where
  "matchGlobal r s = (case matchAll r s of [] \<Rightarrow> None | ms \<Rightarrow> Some (map (Some \<circ> fst) ms))"

definition orElse :: "'a option \<Rightarrow> 'a option \<Rightarrow> 'a option" where
  "orElse x y = (case x of None \<Rightarrow> y | Some v \<Rightarrow> Some v)"

definition pop :: "ustring option list \<Rightarrow> ustring option" where
  "pop xs = (case xs of [] \<Rightarrow> None | _ \<Rightarrow> last xs)"

text \<open>\<^verbatim>\<open>getVolumeNumber\<close>, with \<open>None\<close> for \<^verbatim>\<open>undefined\<close>.\<close>

definition getVolumeNumber :: "ustring \<Rightarrow> ustring option" where
  "getVolumeNumber title' =
     (let volumeString0 = map (\<lambda>c. if c \<in> set separators then 46 else c) title';
          volumeString1 = foldl (\<lambda>s (character, i). replaceAll s character [48 + i])
                            volumeString0 (zip japaneseCharacters [0..<10]);
          spaceMatch =
            orElse (matchOnce markerRe volumeString1)
              (orElse (matchGlobal parenRe volumeString1)
                (orElse (matchGlobal spacedRe volumeString1)
                  (matchGlobal anyNumberRe volumeString1)));
          spaceMatchN = (case spaceMatch of None \<Rightarrow> None | Some ms \<Rightarrow> pop ms);
          volumeString2 = (if truthyStr spaceMatchN then the spaceMatchN else volumeString1);
          volumeNumbers = matchOnce zeroStripRe volumeString2
      in case volumeNumbers of
           None \<Rightarrow> None
         | Some ms \<Rightarrow> (let volumeNumberString = pop ms
                      in if truthyStr volumeNumberString then volumeNumberString else None))"

text \<open>
  The extraction as the specification words it. The title is normalised in one pass.
  The four patterns are tried in order and the first that matches at all decides: the
  pattern with the explicit marker gives the number of one of its matches, the others
  the text of their last match. In the text selected, or in the normalised title when no
  pattern matches, the first number is looked up, leading zeros being skipped as long as
  a digit is left for the number. The specification takes the last match of every
  pattern; which match of the first pattern is taken is a parameter here.
\<close>

datatype which_match = FirstMatch | LastMatch

definition spec_normalize :: "ustring \<Rightarrow> ustring" where
  "spec_normalize title' =
     map (\<lambda>c. if c \<in> {0xFF0E, 44, 35, 47, 0xFF0F, 0x30FB, 0x5E74, 0x6708} then 46
              else if 0xFF10 \<le> c \<and> c \<le> 0xFF19 then c - 0xFF10 + 48
              else c) title'"

definition spec_markerNumber :: "which_match \<Rightarrow> ustring \<Rightarrow> ustring option" where
  "spec_markerNumber w s =
     (case matchAll markerRe s of
        [] \<Rightarrow> None
      | m # ms \<Rightarrow> snd (case w of FirstMatch \<Rightarrow> m | LastMatch \<Rightarrow> last (m # ms)))"

definition spec_lastMatch :: "re \<Rightarrow> ustring \<Rightarrow> ustring option" where
  "spec_lastMatch r s = (case matchAll r s of [] \<Rightarrow> None | m # ms \<Rightarrow> Some (fst (last (m # ms))))"

fun spec_firstPattern :: "(bool \<times> ustring option) list \<Rightarrow> ustring option" where
  "spec_firstPattern [] = None"
| "spec_firstPattern ((matched, selection) # rest) =
     (if matched then selection else spec_firstPattern rest)"

definition spec_stripZeros :: "ustring \<Rightarrow> ustring option" where
  "spec_stripZeros s =
     (case searchRe zeroStripRe s of
        None \<Rightarrow> None
      | Some (t, number, rest) \<Rightarrow> if truthyStr number then number else None)"

definition spec_extractOrderingNumber :: "which_match \<Rightarrow> ustring \<Rightarrow> ustring option" where
  "spec_extractOrderingNumber w title' =
     (let s = spec_normalize title';
          selected = spec_firstPattern
            [(matchAll markerRe s \<noteq> [], spec_markerNumber w s),
             (matchAll parenRe s \<noteq> [], spec_lastMatch parenRe s),
             (matchAll spacedRe s \<noteq> [], spec_lastMatch spacedRe s),
             (matchAll anyNumberRe s \<noteq> [], spec_lastMatch anyNumberRe s)]
      in spec_stripZeros (if truthyStr selected then the selected else s))"

text \<open>The replacement of one full-width digit, on one code unit.\<close>

definition digitStep :: "nat \<Rightarrow> nat \<Rightarrow> nat \<Rightarrow> nat" where
  "digitStep i c = (\<lambda>x. if x = c then 48 + i else x)"

section \<open>Fetching series and books\<close>

text \<open>
  \<^verbatim>\<open>getVolumePrefix\<close> with its regular expression \<^verbatim>\<open>/Chapter|#\d+/i\<close>, and
  \<^verbatim>\<open>parseVolumeName\<close>; \<^verbatim>\<open>trim\<close> removes white space at both ends.
\<close>

definition prefixRe :: re where
  "prefixRe = Alt (word litI ''Chapter'') (Seq (lit CHR ''#'') (Plus (Chr isDigit)))"

definition getVolumePrefix :: "ustring \<Rightarrow> ustring" where
  "getVolumePrefix title' =
     (if searchRe prefixRe title' \<noteq> None then str ''Chapter'' else str ''Volume'')"

definition trim :: "ustring \<Rightarrow> ustring" where
  "trim s = rev (dropWhile isSpace (rev (dropWhile isSpace s)))"

definition parseVolumeName :: "ustring \<Rightarrow> ustring option \<Rightarrow> ustring" where
  "parseVolumeName title' forcePrefix =
     (let volumePrefix = (if truthyStr forcePrefix then the forcePrefix else getVolumePrefix title');
          volumeNumber = getVolumeNumber title'
      in if truthyStr volumeNumber then volumePrefix @ str '' '' @ the volumeNumber
         else trim title')"

text \<open>
  The operations below run one after the other: each is followed to its end before the
  next begins, and a promise that is rejected is the value \<open>None\<close> of the collaborator.

  \<^verbatim>\<open>fetchSeries\<close>. The object spread copies the own properties of the book ids and then
  those of the series ids.
\<close>

definition fetchSeries :: "env \<Rightarrow> downloader \<Rightarrow> downloader" where
  "fetchSeries e s =
     (if isFetching s then s
      else
        (let s0 = s\<lparr>isFetching := True\<rparr>;
             allIds = foldl (\<lambda>obj entry. recordSet obj (fst entry) (snd entry)) []
                        (ownEntries (allBookIds s0) @ ownEntries (allSeriesIds s0));
             s1 = s0\<lparr>requests := requests s0 @ [GetSeries allIds]\<rparr>;
             s2 = (case getSeries e allIds of
                     None \<Rightarrow> s1\<lparr>appErrors := appErrors s1 @ [str ''Failed to fetch series'']\<rparr>
                   | Some response \<Rightarrow>
                       foldl (\<lambda>st entry.
                                case find (\<lambda>p. providerId p = fst entry) (providers st) of
                                  None \<Rightarrow> st
                                | Some provider' \<Rightarrow>
                                    st\<lparr>allSeries := allSeries st
                                          @ map (\<lambda>x. \<lparr>seriesIdent = bbcSeriesIdent x,
                                                        seriesType = bbcSeriesType x,
                                                        seriesTitle = bbcSeriesTitle x,
                                                        seriesThumbnail = bbcSeriesThumbnail x,
                                                        bookType = bbcBookType x,
                                                        publicationType = bbcPublicationType x,
                                                        seriesProvider = provider'\<rparr>) (snd entry)\<rparr>)
                         (s1\<lparr>appErrors := appErrors s1 @ resErrors response\<rparr>)
                         (resEntries response))
         in s2\<lparr>isFetching := False\<rparr>))"

text \<open>
  The book that \<^verbatim>\<open>fetchBooks\<close> makes of a catalog book of a provider: the spread of the
  catalog book, the provider, the volume name and number, the thumbnail, and the display
  text rendered from the book so far.
\<close>

definition decorateBook :: "env \<Rightarrow> downloader \<Rightarrow> provider \<Rightarrow> bbc_book \<Rightarrow> book" where
  "decorateBook e s provider' b =
     (let data =
            \<lparr>bookId = bbcId b, title = bbcTitle b, cover = bbcCover b, seriesId = bbcSeriesId b,
             thumbnail = getUrl e (bbcCover b) THUMBNAIL_DATA, provider = provider',
             volumeName = parseVolumeName (bbcTitle b) (volumePrefix provider'),
             volumeNumber = strOr (getVolumeNumber (bbcTitle b)) (str ''0''),
             displayText = parseVolumeName (bbcTitle b) (volumePrefix provider'),
             coverFormat = None, coverHeight = None, coverWidth = None, coverIsCropped = None,
             originalCover = None, originalThumbnail = None, originalWidth = None,
             chromaSubsampling = None, coverQualityScore = None, selectedPage = None\<rparr>
      in data\<lparr>displayText :=
                 parseTextVariables e (allSeries s) (bookDisplayTextSetting e) (Some data) None\<rparr>)"

text \<open>
  The inner \<^verbatim>\<open>try\<close> statement of the loop over the selected providers: the pages of the
  new books of a provider that supports book pages. Reading the pages of the provider
  from the result throws unless it gives an array, and the \<^verbatim>\<open>catch\<close> clause reports it.
\<close>

definition fetchProviderPages :: "env \<Rightarrow> provider \<Rightarrow> book list \<Rightarrow> downloader \<Rightarrow> downloader" where
  "fetchProviderPages e provider' newBooks s =
     (let newBookIds =
            map bookId (filter (\<lambda>b. providerId (provider b) = providerId provider') newBooks);
          ids = [(providerId provider', newBookIds)];
          s1 = s\<lparr>requests := requests s @ [GetBookPages ids]\<rparr>
      in case getBookPages e ids of
           None \<Rightarrow> reportError provider' (str ''Failed to change book preview page'') s1
         | Some bookPages \<Rightarrow>
             (let s2 = (if \<not> ignoreErrors provider' \<and> resErrors bookPages \<noteq> []
                        then s1\<lparr>appErrors := appErrors s1 @ resErrors bookPages\<rparr> else s1)
              in case resData bookPages (providerId provider') of
                   Found pages \<Rightarrow>
                     s2\<lparr>allBookPages := allBookPages s2
                           @ map (\<lambda>p. \<lparr>pageNumber = bbcPageNumber p, pageUrl = bbcPageUrl p,
                                        pageType = bbcPageType p, pageHeight = bbcPageHeight p,
                                        pageWidth = bbcPageWidth p, pageBookId = bbcPageBookId p,
                                        pageProvider = provider'\<rparr>) pages\<rparr>
                 | _ \<Rightarrow> reportError provider' (str ''Failed to change book preview page'') s2))"

text \<open>
  One round of the loop over the selected providers, on the downloader and the local
  \<^verbatim>\<open>newBooks\<close>. \<open>Inl\<close> is an exception that leaves the loop, with the downloader at that
  moment: the books of the provider in the result are not an array.
\<close>

definition providerStep ::
  "env \<Rightarrow> bbc_book bbc_result \<Rightarrow> downloader + downloader \<times> book list \<Rightarrow> provider
     \<Rightarrow> downloader + downloader \<times> book list" where
  "providerStep e response acc provider' =
     (case acc of
        Inl s \<Rightarrow> Inl s
      | Inr (s, newBooks) \<Rightarrow>
          (case resData response (providerId provider') of
             NotArray \<Rightarrow> Inl s
           | found \<Rightarrow>
               (let newBooks1 = (case found of
                                   Found books \<Rightarrow> newBooks @ map (decorateBook e s provider') books
                                 | _ \<Rightarrow> newBooks)
                in if supportsBookPages provider'
                   then Inr (fetchProviderPages e provider' newBooks1 s, newBooks1)
                   else Inr (s, newBooks1))))"

text \<open>\<^verbatim>\<open>maxBookPage\<close> and \<^verbatim>\<open>canChangeBookPage\<close>, and the re-pointing of a book's cover.\<close>

definition maxBookPage :: "downloader \<Rightarrow> nat" where
  "maxBookPage s = foldl max 0 (map pageNumber (allBookPages s))"

definition canChangeBookPage :: "downloader \<Rightarrow> bool" where
  "canChangeBookPage s = (list_ex supportsBookPages (selectedProviders s) \<and> maxBookPage s > 0)"

definition selectBookPage :: "env \<Rightarrow> downloader \<Rightarrow> book \<Rightarrow> book" where
  "selectBookPage e s b =
     (let bookPages = filter (\<lambda>p. pageBookId p = bookId b
                               \<and> providerId (pageProvider p) = providerId (provider b))
                        (allBookPages s)
      in if bookPages \<noteq> [] then
           (let selectedPage' = (case find (\<lambda>p. pageNumber p = selectedBookPage s) bookPages of
                                   Some p \<Rightarrow> p
                                 | None \<Rightarrow> last bookPages)
            in b\<lparr>selectedPage := Some (pageNumber selectedPage'),
                 cover := pageUrl selectedPage',
                 thumbnail := getUrl e (pageUrl selectedPage') THUMBNAIL_DATA\<rparr>)
         else b)"

text \<open>
  The metadata of one cover. The fetches of a page run concurrently; their requests are
  issued in the order of the books, and their failures are reported here in that order,
  where the run time reports them in the order in which they fail.
\<close>

definition fetchCoverInfo :: "env \<Rightarrow> downloader \<times> book list \<Rightarrow> book \<Rightarrow> downloader \<times> book list" where
  "fetchCoverInfo e acc book =
     (let (s, books) = acc;
          s1 = s\<lparr>requests := requests s @ [GetInfo (cover book)]\<rparr>
      in case getInfo e (cover book) of
           None \<Rightarrow>
             (reportError (provider book)
                (str ''Failed to get cover details for '' @ providerName (provider book)
                   @ str '' - '' @ title book) s1,
              books @ [book])
         | Some response \<Rightarrow>
             (let b = book\<lparr>coverFormat := infoFormat response, coverHeight := infoHeight response,
                           coverWidth := infoWidth response,
                           chromaSubsampling := infoChromaSubsampling response\<rparr>
              in (s1, books @ [b\<lparr>coverQualityScore := Some (getCoverQualityScore b)\<rparr>])))"

text \<open>
  One round of the loop over the pages to fetch. \<open>Inl\<close> is an exception, which ends the
  loop: the catalog request is rejected, or the loop over the providers throws.
\<close>

definition fetchPage :: "env \<Rightarrow> downloader \<Rightarrow> int \<Rightarrow> downloader + downloader" where
  "fetchPage e s currentPage =
     (let s1 = s\<lparr>fetchedPages := fetchedPages s @ [currentPage]\<rparr>;
          s2 = s1\<lparr>requests := requests s1
                    @ [GetBooks (allSeriesIds s1) (allBookIds s1) (sortOrder s1) currentPage]\<rparr>
      in case getBooks e (allSeriesIds s2) (allBookIds s2) (sortOrder s2) currentPage of
           None \<Rightarrow> Inl s2
         | Some response \<Rightarrow>
             (let s3 = s2\<lparr>maxPage := max (maxPage s2) (resPages response)\<rparr>;
                  s4 = s3\<lparr>appErrors := appErrors s3 @ resErrors response\<rparr>
              in if resCount response > 0 then
                   (case foldl (providerStep e response) (Inr (s4, [])) (selectedProviders s4) of
                      Inl st \<Rightarrow> Inl st
                    | Inr (s5, newBooks) \<Rightarrow>
                        (let newBooks1 = (if canChangeBookPage s5
                                          then map (selectBookPage e s5) newBooks else newBooks);
                             (s6, newBooks2) = foldl (fetchCoverInfo e) (s5, []) newBooks1;
                             newBooks3 =
                               filter (\<lambda>book. \<not> ignoreErrors (provider book)
                                         \<or> (truthyNum (coverHeight book) \<and> the (coverHeight book) > 1
                                            \<and> truthyNum (coverWidth book) \<and> the (coverWidth book) > 1))
                                 newBooks2;
                             newBooks4 =
                               (if automaticCropSetting e
                                then toggleCropCovers (getUrl e) (cropFormatSetting e)
                                       (cropQualitySetting e) newBooks3 True
                                else newBooks3)
                         in Inr (s6\<lparr>allBooks := allBooks s6 @ newBooks4\<rparr>)))
                 else Inr s4))"

fun fetchPages :: "env \<Rightarrow> downloader \<Rightarrow> int list \<Rightarrow> downloader + downloader" where
  "fetchPages e s [] = Inr s"
| "fetchPages e s (currentPage # rest) =
     (case fetchPage e s currentPage of
        Inl st \<Rightarrow> Inl st
      | Inr st \<Rightarrow> fetchPages e st rest)"

text \<open>
  The pages a fetch cycle requests: the pages from 1 to the current page that are not in
  the tracker, in the mode that increments pages, and the current page otherwise.
  \<^verbatim>\<open>new Array(n)\<close> throws unless \<open>0 \<le> n < 2\<^sup>3\<^sup>2\<close>, which is the value \<open>None\<close>. Page numbers
  are integers.
\<close>

definition pagesToFetch :: "downloader \<Rightarrow> int list option" where
  "pagesToFetch s =
     (if incrementPages s then
        (if page s < 0 \<or> page s > 4294967295 then None
         else Some (filter (\<lambda>p. p \<notin> set (fetchedPages s)) [1..page s]))
      else Some [page s])"

text \<open>\<^verbatim>\<open>fetchBooks\<close>.\<close>

definition fetchBooks :: "env \<Rightarrow> downloader \<Rightarrow> downloader" where
  "fetchBooks e s =
     (if isFetching s then s
      else
        (let s0 = s\<lparr>isFetching := True\<rparr> in
         if length (ownKeys (allSeriesIds s0)) = 0 \<and> length (ownKeys (allBookIds s0)) = 0
         then s0\<lparr>isFetching := False\<rparr>
         else
           (let s1 = (case pagesToFetch s0 of
                        None \<Rightarrow> s0\<lparr>appErrors := appErrors s0 @ [str ''Failed to fetch books'']\<rparr>
                      | Some pages \<Rightarrow>
                          (case fetchPages e s0 pages of
                             Inl st \<Rightarrow> st\<lparr>appErrors := appErrors st @ [str ''Failed to fetch books'']\<rparr>
                           | Inr st \<Rightarrow> st))
            in s1\<lparr>isFetching := False\<rparr>)))"

text \<open>\<^verbatim>\<open>resetAll\<close>, \<^verbatim>\<open>changePage\<close>, \<^verbatim>\<open>incrementPage\<close> and \<^verbatim>\<open>toggleSortOrder\<close>.\<close>

definition resetAll :: "env \<Rightarrow> downloader \<Rightarrow> downloader" where
  "resetAll e s =
     (let s1 = s\<lparr>appLoading := True\<rparr>;
          s2 = s1\<lparr>fetchedPages := [], allBooks := [], selectedBooks := [], allBookPages := []\<rparr>;
          s3 = fetchBooks e s2
      in s3\<lparr>appLoading := False\<rparr>)"

definition changePage :: "env \<Rightarrow> int \<Rightarrow> downloader \<Rightarrow> downloader" where
  "changePage e p s =
     (if p = page s then s
      else resetAll e (s\<lparr>page := p, incrementPages := False\<rparr>))"

definition isNextPage :: "downloader \<Rightarrow> bool" where
  "isNextPage s = (page s < maxPage s)"

definition incrementPage :: "env \<Rightarrow> downloader \<Rightarrow> downloader" where
  "incrementPage e s =
     (if \<not> isNextPage s then s
      else fetchBooks e (s\<lparr>page := page s + 1, incrementPages := True\<rparr>))"

definition toggleSortOrder :: "env \<Rightarrow> downloader \<Rightarrow> downloader" where
  "toggleSortOrder e s =
     resetAll e (s\<lparr>sortOrder := (if sortOrder s = Asc then Desc else Asc)\<rparr>)"

text \<open>
  \<^verbatim>\<open>initialize\<close>. The ids of a provider are written to a key of a plain object; under
  the key \<^verbatim>\<open>__proto__\<close> the array becomes the prototype of the object and no property
  results.
\<close>

definition setIds ::
  "(ustring \<times> ustring list) list \<Rightarrow> ustring \<Rightarrow> ustring list \<Rightarrow> (ustring \<times> ustring list) list" where
  "setIds obj key v = (if key = str ''__proto__'' then obj else recordSet obj key v)"

definition initProvider :: "env \<Rightarrow> downloader \<Rightarrow> provider \<Rightarrow> downloader" where
  "initProvider e s provider' =
     (let series = getAllSvelteSearchParams e (str ''series('' @ providerId provider' @ str '')'');
          books = getAllSvelteSearchParams e (str ''book('' @ providerId provider' @ str '')'')
      in if series = [] \<and> books = [] then s
         else
           (let s1 = s\<lparr>providers := providers s @ [provider']\<rparr>;
                s2 = s1\<lparr>selectedProviders := selectedProviders s1 @ [provider']\<rparr>;
                s3 = (if series \<noteq> []
                      then s2\<lparr>allSeriesIds := setIds (allSeriesIds s2) (providerId provider') series\<rparr>
                      else s2);
                s4 = (if books \<noteq> []
                      then s3\<lparr>allBookIds := setIds (allBookIds s3) (providerId provider') books\<rparr>
                      else s3)
            in s4))"

definition countIds :: "(ustring \<times> ustring list) list \<Rightarrow> nat" where
  "countIds store = foldl (\<lambda>sum' arr. sum' + length arr) 0 (map snd (ownEntries store))"

definition initialize :: "env \<Rightarrow> downloader \<Rightarrow> downloader" where
  "initialize e s =
     (let s0 = s\<lparr>providers := [], selectedProviders := [], allSeriesIds := [], allBookIds := []\<rparr>;
          s1 = foldl (initProvider e) s0 (allProviders e);
          totalIds = countIds (allSeriesIds s1) + countIds (allBookIds s1)
      in if totalIds > 10 then
           s1\<lparr>appErrors := appErrors s1
                 @ [str ''Too many series selected. Please select up to 10 series at a time.'']\<rparr>
         else if providers s1 \<noteq> [] then fetchBooks e (fetchSeries e s1)
         else s1)"

text \<open>
  The states that the operations of the download page reach: \<^verbatim>\<open>initialize\<close> on a
  downloader whose page tracker is empty, as that of a new downloader is, and then
  \<^verbatim>\<open>resetAll\<close>, \<^verbatim>\<open>changePage\<close>, \<^verbatim>\<open>incrementPage\<close> and \<^verbatim>\<open>toggleSortOrder\<close>.
\<close>

inductive reachable :: "env \<Rightarrow> downloader \<Rightarrow> bool" for e where
  reach_initialize: "fetchedPages s = [] \<Longrightarrow> reachable e (initialize e s)"
| reach_resetAll: "reachable e s \<Longrightarrow> reachable e (resetAll e s)"
| reach_changePage: "reachable e s \<Longrightarrow> reachable e (changePage e p s)"
| reach_incrementPage: "reachable e s \<Longrightarrow> reachable e (incrementPage e s)"
| reach_toggleSortOrder: "reachable e s \<Longrightarrow> reachable e (toggleSortOrder e s)"

text \<open>Two states with the same page tracker and the same fetching flag.\<close>

definition sameTracker :: "downloader \<Rightarrow> downloader \<Rightarrow> bool" where
  "sameTracker s t = (fetchedPages t = fetchedPages s \<and> isFetching t = isFetching s)"

text \<open>
  A catalog with three pages and no books: one provider has a series id in the URL, and
  every page of the catalog is empty.
\<close>

definition paging_env :: env where
  "paging_env =
     test_env\<lparr>getAllSvelteSearchParams :=
                  (\<lambda>k. if k = str ''series(p1)'' then [str ''s1''] else []),
              getBooks := (\<lambda>seriesIds bookIds sort p.
                 Some \<lparr>resData = (\<lambda>k. Falsy), resEntries = [], resCount = 0, resPages = 3,
                       resErrors = []\<rparr>)\<rparr>"

section \<open>Properties of the chunker\<close>

lemma chopArray_loop_spec:
  assumes "1 \<le> n"
  shows "\<exists>cs. chopArray_loop xs n i res = Some (res @ cs) \<and> concat cs = drop i xs
           \<and> (\<forall>c \<in> set cs. c \<noteq> [] \<and> length c \<le> n)
           \<and> (\<forall>c \<in> set (butlast cs). length c = n)"
proof (induction "length xs - i" arbitrary: i res rule: less_induct)
  case less
  show ?case
  proof (cases "i < length xs")
    case False
    then show ?thesis
      by (subst chopArray_loop.simps) simp
  next
    case True
    let ?c = "slice xs i (i + n)"
    from True assms have "length xs - (i + n) < length xs - i" by arith
    from less[OF this, of "res @ [?c]"] obtain cs where
      cs: "chopArray_loop xs n (i + n) (res @ [?c]) = Some ((res @ [?c]) @ cs)"
        "concat cs = drop (i + n) xs"
        "\<forall>c \<in> set cs. c \<noteq> [] \<and> length c \<le> n"
        "\<forall>c \<in> set (butlast cs). length c = n"
      by blast
    have c_ne: "?c \<noteq> []" using True assms by (simp add: slice_def)
    have c_le: "length ?c \<le> n" by (simp add: slice_def)
    have c_cat: "?c @ drop (i + n) xs = drop i xs"
      by (simp add: slice_def add.commute[of i n] flip: drop_drop)
    have c_full: "cs \<noteq> [] \<Longrightarrow> length ?c = n"
    proof -
      assume "cs \<noteq> []"
      with cs(2,3) have "drop (i + n) xs \<noteq> []" by (cases cs) auto
      then show ?thesis by (simp add: slice_def)
    qed
    show ?thesis
      apply (subst chopArray_loop.simps)
      apply (rule exI[of _ "?c # cs"])
      using True cs c_ne c_le c_cat c_full by auto
  qed
qed

text \<open>
  Claim C10. For every array and every chunk size of at least 1, \<^verbatim>\<open>chopArray\<close> returns;
  the chunks, concatenated in order, are the input array; every chunk is non-empty and
  no longer than the chunk size; and every chunk but the last has exactly the chunk size.
\<close>

theorem chopArray_chunks:
  assumes "1 \<le> chunkSize"
  shows "\<exists>cs. chopArray array chunkSize = Some cs \<and> concat cs = array
           \<and> (\<forall>c \<in> set cs. c \<noteq> [] \<and> length c \<le> chunkSize)
           \<and> (\<forall>c \<in> set (butlast cs). length c = chunkSize)"
  using chopArray_loop_spec[OF assms, of array 0 "[]"] by (simp add: chopArray_def)

theorem chopArray_chunks_witness:
  "(1::nat) \<le> 3 \<and> chopArray [1, 2, 3, 4, 5, 6, 7 :: nat] 3 = Some [[1, 2, 3], [4, 5, 6], [7]]"
proof -
  have h: "(1::nat) \<le> 3" by simp
  from chopArray_chunks[OF h, of "[1, 2, 3, 4, 5, 6, 7 :: nat]"] obtain cs where
    "chopArray [1, 2, 3, 4, 5, 6, 7 :: nat] 3 = Some cs" by blast
  moreover have "chopArray [1, 2, 3, 4, 5, 6, 7 :: nat] 3 = Some [[1, 2, 3], [4, 5, 6], [7]]"
    by (simp add: chopArray_def chopArray_loop.simps slice_def)
  ultimately show ?thesis by simp
qed

section \<open>The crop decision table\<close>

lemma crop_aspect_floor:
  fixes w h :: nat
  shows "\<lfloor>(real w / real h) * 100\<rfloor> = int ((100 * w) div h)"
proof -
  have e: "(real w / real h) * 100 = real (100 * w) / real h" by simp
  show ?thesis unfolding e by (simp only: floor_divide_of_nat_eq)
qed

lemma crop_aspect_band:
  fixes w h :: nat
  assumes "0 < h"
  shows "real_of_int \<lfloor>(real w / real h) * 100\<rfloor> / 100 \<ge> 0.73
           \<and> real_of_int \<lfloor>(real w / real h) * 100\<rfloor> / 100 < 0.8
     \<longleftrightarrow> 73 * h \<le> 100 * w \<and> 100 * w < 80 * h"
proof -
  let ?k = "(100 * w) div h"
  have a: "73 \<le> ?k \<longleftrightarrow> 73 * h \<le> 100 * w"
    using assms less_eq_div_iff_mult_less_eq by blast
  have b: "?k < 80 \<longleftrightarrow> 100 * w < 80 * h"
    using assms by (simp add: div_less_iff_less_mult)
  have c: "real_of_int (int ?k) / 100 \<ge> 0.73 \<longleftrightarrow> 73 \<le> ?k" by (auto simp: field_simps)
  have d: "real_of_int (int ?k) / 100 < 0.8 \<longleftrightarrow> ?k < 80" by (auto simp: field_simps)
  show ?thesis unfolding crop_aspect_floor using a b c d by blast
qed

text \<open>
  Claim C3. For every pair of raw cover dimensions the crop amount is the amount of the
  first row of the decision table whose condition holds, and no crop when no row matches,
  with the aspect \<open>floor(width / height * 100) / 100\<close>; and 900 by 1200 gives +120,
  2500 by 3000 gives no crop, 1800 by 2500 gives no crop.
\<close>

theorem calculateCropAmount_decision_table:
  "calculateCropAmount width height = first_match crop_table width height
   \<and> calculateCropAmount 900 1200 = Some 120
   \<and> calculateCropAmount 2500 3000 = None
   \<and> calculateCropAmount 1800 2500 = None"
proof -
  have "calculateCropAmount width height = first_match crop_table width height"
    by (auto simp add: calculateCropAmount_def crop_table_def spec_aspect_def Let_def)
  moreover have "calculateCropAmount 900 1200 = Some 120"
    by (simp add: calculateCropAmount_def)
  moreover have "calculateCropAmount 2500 3000 = None"
    by (simp add: calculateCropAmount_def)
  moreover have "calculateCropAmount 1800 2500 = None"
    by (simp add: calculateCropAmount_def)
  ultimately show ?thesis by blast
qed

section \<open>The cover quality score\<close>

lemma floor_sqrt_div20:
  fixes r s :: nat
  shows "\<lfloor>sqrt (real r) / 20\<rfloor> = int s \<longleftrightarrow> (20 * s)\<^sup>2 \<le> r \<and> r < (20 * (s + 1))\<^sup>2"
proof -
  have a: "real s \<le> sqrt (real r) / 20 \<longleftrightarrow> (20 * s)\<^sup>2 \<le> r"
  proof -
    have "real s \<le> sqrt (real r) / 20 \<longleftrightarrow> real (20 * s) \<le> sqrt (real r)" by auto
    also have "\<dots> \<longleftrightarrow> (real (20 * s))\<^sup>2 \<le> real r"
      by (metis of_nat_0_le_iff real_le_rsqrt real_sqrt_le_iff real_sqrt_abs real_sqrt_unique)
    also have "\<dots> \<longleftrightarrow> (20 * s)\<^sup>2 \<le> r"
      by (metis of_nat_le_iff of_nat_power)
    finally show ?thesis .
  qed
  have b: "sqrt (real r) / 20 < real s + 1 \<longleftrightarrow> r < (20 * (s + 1))\<^sup>2"
  proof -
    have "sqrt (real r) / 20 < real s + 1 \<longleftrightarrow> sqrt (real r) < real (20 * (s + 1))" by auto
    also have "\<dots> \<longleftrightarrow> real r < (real (20 * (s + 1)))\<^sup>2"
      by (metis real_sqrt_less_iff real_sqrt_abs abs_of_nat)
    also have "\<dots> \<longleftrightarrow> r < (20 * (s + 1))\<^sup>2"
      by (metis of_nat_less_iff of_nat_power)
    finally show ?thesis .
  qed
  show ?thesis
    unfolding floor_eq_iff using a b by simp
qed

lemma round_half: "round (real_of_int t / 2) = (t + 1) div 2"
proof -
  have "real_of_int t / 2 + 1 / 2 = real_of_int (t + 1) / real_of_int 2"
    by (simp add: field_simps)
  then show ?thesis unfolding round_def by (simp only: floor_divide_of_int_eq)
qed

lemma resScore_million: "\<lfloor>sqrt (real (1000000::nat)) / 20\<rfloor> = 50"
  using floor_sqrt_div20[of 1000000 50] by simp

lemma str_inject: "str a = str b \<longleftrightarrow> a = b"
  by (simp add: str_def inj_map_eq_map[OF inj_of_char])


lemma formatScore_eq:
  assumes "\<And>k. fmt = Some k \<Longrightarrow> k \<notin> set objectPrototypeKeys"
  shows "(if truthyStr fmt then tableOr formatScores (the fmt) 0 else Some 0)
         = Some (spec_formatScore fmt)"
proof (cases fmt)
  case None
  then show ?thesis by (simp add: truthyStr_def spec_formatScore_def)
next
  case (Some k)
  have "k \<notin> set objectPrototypeKeys" using assms Some by simp
  then show ?thesis
    using Some
    by (auto simp: truthyStr_def tableOr_def getProp_def formatScores_def spec_formatScore_def
        str_def)
qed

lemma chromaScore_eq:
  assumes "\<And>c. chroma = Some c \<Longrightarrow> fmt = Some (str ''jpeg'') \<or> fmt = Some (str ''jpg'')
             \<Longrightarrow> c \<notin> set objectPrototypeKeys"
  shows "(if (fmt = Some (str ''jpeg'') \<or> fmt = Some (str ''jpg'')) \<and> truthyStr chroma
          then tableOr chromaScores (the chroma) 4 else Some 8)
         = Some (code_chromaScore fmt chroma)"
proof (cases "(fmt = Some (str ''jpeg'') \<or> fmt = Some (str ''jpg'')) \<and> truthyStr chroma")
  case False
  then show ?thesis
    by (cases chroma) (auto simp: truthyStr_def code_chromaScore_def)
next
  case True
  then obtain c where c: "chroma = Some c" "c \<noteq> []"
    by (cases chroma) (auto simp: truthyStr_def)
  have "c \<notin> set objectPrototypeKeys" using assms c True by blast
  then have "tableOr chromaScores c 4 = Some (spec_chromaTable (Some c))"
    by (auto simp: tableOr_def getProp_def chromaScores_def spec_chromaTable_def str_def)
  then show ?thesis
    using True c by (simp add: code_chromaScore_def)
qed

lemma mem_objectPrototypeKeys_nonempty: "k \<in> set objectPrototypeKeys \<Longrightarrow> k \<noteq> []"
  by (auto simp: objectPrototypeKeys_def str_def)

lemma tableOr_inherited:
  assumes "k \<in> set objectPrototypeKeys" "set (map fst table) \<inter> set objectPrototypeKeys = {}"
  shows "tableOr table k d = None"
proof -
  have "k \<notin> fst ` set table" using assms by auto
  then have "map_of table k = None" by (simp add: map_of_eq_None_iff)
  then show ?thesis using assms(1) by (simp add: tableOr_def getProp_def)
qed

lemma formatScores_own: "set (map fst formatScores) \<inter> set objectPrototypeKeys = {}"
  by (simp add: formatScores_def objectPrototypeKeys_def str_def)

lemma chromaScores_own: "set (map fst chromaScores) \<inter> set objectPrototypeKeys = {}"
  by (simp add: chromaScores_def objectPrototypeKeys_def str_def)

lemma jpeg_not_inherited:
  "str ''jpeg'' \<notin> set objectPrototypeKeys" "str ''jpg'' \<notin> set objectPrototypeKeys"
  by (simp_all add: objectPrototypeKeys_def str_def)

lemma getCoverQualityScore_unfold:
  assumes "plainKeys book"
  shows "getCoverQualityScore book =
     Finite (round (real_of_int (spec_resolutionScore book
        + spec_formatScore (map_option toLowerCase (coverFormat book))
        + code_chromaScore (map_option toLowerCase (coverFormat book)) (chromaSubsampling book)) / 2))"
proof -
  let ?fmt = "map_option toLowerCase (coverFormat book)"
  have f: "(if truthyStr ?fmt then tableOr formatScores (the ?fmt) 0 else Some 0)
           = Some (spec_formatScore ?fmt)"
    by (rule formatScore_eq)
      (use assms jpeg_not_inherited in \<open>auto simp: plainKeys_def split: if_splits\<close>)
  have c: "(if (?fmt = Some (str ''jpeg'') \<or> ?fmt = Some (str ''jpg''))
                \<and> truthyStr (chromaSubsampling book)
            then tableOr chromaScores (the (chromaSubsampling book)) 4 else Some 8)
           = Some (code_chromaScore ?fmt (chromaSubsampling book))"
    by (rule chromaScore_eq) (use assms in \<open>auto simp: plainKeys_def\<close>)
  show ?thesis
    unfolding getCoverQualityScore_def Let_def f c spec_resolutionScore_def by simp
qed

lemma getCoverQualityScore_NaN:
  assumes "\<not> plainKeys book"
  shows "getCoverQualityScore book = NaN"
proof -
  let ?fmt = "map_option toLowerCase (coverFormat book)"
  from assms obtain k where k: "?fmt = Some k"
    by (cases ?fmt) (auto simp: plainKeys_def)
  then obtain z where z: "coverFormat book = Some z" "toLowerCase z = k"
    by auto
  show ?thesis
  proof (cases "k = str ''jpeg'' \<or> k = str ''jpg''")
    case True
    with assms k obtain c where c: "chromaSubsampling book = Some c" "c \<in> set objectPrototypeKeys"
      by (cases "chromaSubsampling book") (auto simp: plainKeys_def)
    have t: "truthyStr (chromaSubsampling book)"
      using c mem_objectPrototypeKeys_nonempty by (simp add: truthyStr_def)
    have "tableOr chromaScores c 4 = None"
      using c(2) chromaScores_own by (rule tableOr_inherited)
    then show ?thesis
      unfolding getCoverQualityScore_def Let_def using True z c t
      by (auto split: option.splits)
  next
    case False
    with assms k have m: "k \<in> set objectPrototypeKeys" by (simp add: plainKeys_def)
    have t: "truthyStr ?fmt"
      using z m mem_objectPrototypeKeys_nonempty by (simp add: truthyStr_def)
    have "tableOr formatScores k 0 = None"
      using m formatScores_own by (rule tableOr_inherited)
    then show ?thesis
      unfolding getCoverQualityScore_def Let_def using False z t
      by (auto split: option.splits)
  qed
qed

text \<open>
  Claim C1, as amended. The score is
  \<open>round((resolutionScore + formatScore + chromaScore) / 2)\<close> with
  \<open>resolutionScore = floor(sqrt(width * height) / 20)\<close>, the format score 9 for png, 6 for
  jpeg and jpg, 3 for webp and 0 otherwise (on the lower-cased format), and the chroma
  score 8 unless the format is jpeg or jpg and the book has a non-empty chroma-subsampling
  value, in which case it is 8, 6 or 4 for 4:4:4, 4:2:2 and 4:2:0 and 4 for any other value.
  This holds for every book whose table keys are plain: the lower-cased format, or for a
  jpeg or jpg the chroma-subsampling value, is not the name of a property that the score
  tables inherit, such as \<^verbatim>\<open>constructor\<close> or \<^verbatim>\<open>__proto__\<close>. For every other book the
  score is \<^verbatim>\<open>NaN\<close>. A png cover of 1000 by 1000 scores 34.
\<close>

theorem getCoverQualityScore_formula:
  "getCoverQualityScore book =
     (if plainKeys book
      then Finite (round (real_of_int (spec_resolutionScore book
        + spec_formatScore (map_option toLowerCase (coverFormat book))
        + code_chromaScore (map_option toLowerCase (coverFormat book)) (chromaSubsampling book)) / 2))
      else NaN)
   \<and> (coverFormat book = Some (str ''png'') \<and> coverWidth book = Some 1000
        \<and> coverHeight book = Some 1000 \<longrightarrow> getCoverQualityScore book = Finite 34)"
proof -
  have "getCoverQualityScore book = Finite 34"
    if "coverFormat book = Some (str ''png'')" "coverWidth book = Some 1000"
      "coverHeight book = Some 1000"
  proof -
    have p: "plainKeys book"
      using that by (simp add: plainKeys_def toLowerCase_def objectPrototypeKeys_def str_def)
    have r: "spec_resolutionScore book = 50"
      using that resScore_million by (simp add: spec_resolutionScore_def numOr_def)
    have f: "spec_formatScore (map_option toLowerCase (coverFormat book)) = 9"
      using that by (simp add: spec_formatScore_def toLowerCase_def str_def)
    have c: "code_chromaScore (map_option toLowerCase (coverFormat book)) (chromaSubsampling book) = 8"
      using that by (simp add: code_chromaScore_def toLowerCase_def str_def)
    show ?thesis
      unfolding getCoverQualityScore_unfold[OF p] r f c round_half by simp
  qed
  then show ?thesis
    using getCoverQualityScore_unfold getCoverQualityScore_NaN by (cases "plainKeys book") auto
qed

theorem getCoverQualityScore_formula_witness:
  "plainKeys (test_book (Some (str ''png'')) 1000 1000 None)
   \<and> getCoverQualityScore (test_book (Some (str ''png'')) 1000 1000 None) = Finite 34
   \<and> \<not> plainKeys (test_book (Some (str ''Constructor'')) 1000 1000 None)
   \<and> getCoverQualityScore (test_book (Some (str ''Constructor'')) 1000 1000 None) = NaN
   \<and> \<not> plainKeys (test_book (Some (str ''JPG'')) 1000 1000 (Some (str ''toString'')))
   \<and> getCoverQualityScore (test_book (Some (str ''JPG'')) 1000 1000 (Some (str ''toString''))) = NaN"
proof -
  have 1: "plainKeys (test_book (Some (str ''png'')) 1000 1000 None)"
    by (simp add: plainKeys_def test_book_def toLowerCase_def objectPrototypeKeys_def str_def)
  have 2: "\<not> plainKeys (test_book (Some (str ''Constructor'')) 1000 1000 None)"
    by (simp add: plainKeys_def test_book_def toLowerCase_def objectPrototypeKeys_def str_def)
  have 3: "\<not> plainKeys (test_book (Some (str ''JPG'')) 1000 1000 (Some (str ''toString'')))"
    by (simp add: plainKeys_def test_book_def toLowerCase_def objectPrototypeKeys_def str_def)
  have a: "coverFormat (test_book (Some (str ''png'')) 1000 1000 None) = Some (str ''png'')
      \<and> coverWidth (test_book (Some (str ''png'')) 1000 1000 None) = Some 1000
      \<and> coverHeight (test_book (Some (str ''png'')) 1000 1000 None) = Some 1000"
    by (simp add: test_book_def)
  have 4: "getCoverQualityScore (test_book (Some (str ''png'')) 1000 1000 None) = Finite 34"
    using getCoverQualityScore_formula[of "test_book (Some (str ''png'')) 1000 1000 None"] a
    by blast
  have 5: "getCoverQualityScore (test_book (Some (str ''Constructor'')) 1000 1000 None) = NaN"
    using getCoverQualityScore_formula[of "test_book (Some (str ''Constructor'')) 1000 1000 None"] 2
    by simp
  have 6: "getCoverQualityScore (test_book (Some (str ''JPG'')) 1000 1000 (Some (str ''toString''))) = NaN"
    using getCoverQualityScore_formula[of "test_book (Some (str ''JPG'')) 1000 1000 (Some (str ''toString''))"] 3
    by simp
  show ?thesis using 1 2 3 4 5 6 by blast
qed

text \<open>
  Claim C1 as stated fails for a jpeg cover that carries no chroma-subsampling value: the
  specification's lookup gives the chroma score 4 and the score 30, the code keeps the
  default 8 and returns 32.
\<close>

theorem getCoverQualityScore_counterexample:
  "getCoverQualityScore (test_book (Some (str ''jpeg'')) 1000 1000 None) = Finite 32
   \<and> spec_qualityScore (test_book (Some (str ''jpeg'')) 1000 1000 None) = 30"
proof -
  let ?b = "test_book (Some (str ''jpeg'')) 1000 1000 None"
  have p: "plainKeys ?b"
    by (simp add: plainKeys_def test_book_def toLowerCase_def str_def)
  have r: "spec_resolutionScore ?b = 50"
    using resScore_million by (simp add: spec_resolutionScore_def numOr_def test_book_def)
  have f: "spec_formatScore (map_option toLowerCase (coverFormat ?b)) = 6"
    by (simp add: spec_formatScore_def toLowerCase_def str_def test_book_def)
  have c: "code_chromaScore (map_option toLowerCase (coverFormat ?b)) (chromaSubsampling ?b) = 8"
    by (simp add: code_chromaScore_def toLowerCase_def str_def test_book_def)
  have c': "spec_chromaScore (map_option toLowerCase (coverFormat ?b)) (chromaSubsampling ?b) = 4"
    by (simp add: spec_chromaScore_def spec_chromaTable_def toLowerCase_def str_def test_book_def)
  have 1: "getCoverQualityScore ?b = Finite 32"
    unfolding getCoverQualityScore_unfold[OF p] r f c round_half by simp
  have 2: "spec_qualityScore ?b = 30"
    unfolding spec_qualityScore_def Let_def r f c' round_half by simp
  show ?thesis using 1 2 by simp
qed

section \<open>Cropping and un-cropping\<close>

lemma calculateCropAmount_bound:
  assumes "calculateCropAmount w h = Some a"
  shows "a \<noteq> 0 \<and> nat \<bar>a\<bar> < w"
proof -
  have band: "73 * h \<le> 100 * w"
    if "h > 2000" "real_of_int \<lfloor>(real w / real h) * 100\<rfloor> / 100 \<ge> 0.73"
       "real_of_int \<lfloor>(real w / real h) * 100\<rfloor> / 100 < 0.8"
    using crop_aspect_band[of h w] that by simp
  show ?thesis
    using assms band unfolding calculateCropAmount_def Let_def
    by (auto split: if_splits)
qed

lemma getCoverQualityScore_cong:
  "coverWidth a = coverWidth b \<Longrightarrow> coverHeight a = coverHeight b \<Longrightarrow> coverFormat a = coverFormat b
   \<Longrightarrow> chromaSubsampling a = chromaSubsampling b \<Longrightarrow> getCoverQualityScore a = getCoverQualityScore b"
  unfolding getCoverQualityScore_def by (simp only:)

lemma toggleCropCover_crop:
  assumes "cropApplicable b"
  shows "\<exists>u t w. toggleCropCover g f q True b =
           b\<lparr>originalCover := Some (cover b), originalThumbnail := Some (thumbnail b),
             originalWidth := coverWidth b, cover := u, thumbnail := t, coverWidth := Some w,
             coverIsCropped := Some True,
             coverQualityScore := Some (getCoverQualityScore (b\<lparr>coverWidth := Some w\<rparr>))\<rparr>"
proof -
  obtain w where w: "coverWidth b = Some w" using assms by (auto simp: cropApplicable_def truthyNum_def split: option.splits)
  obtain a where a: "calculateCropAmount (the (coverWidth b)) (the (coverHeight b)) = Some a"
    using assms by (auto simp: cropApplicable_def)
  have a0: "a \<noteq> 0" using calculateCropAmount_bound[OF a] by simp
  have sc: "getCoverQualityScore (b\<lparr>originalCover := oc, originalThumbnail := ot, originalWidth := ow, cover := u, thumbnail := t, coverWidth := Some w', coverIsCropped := ic\<rparr>) = getCoverQualityScore (b\<lparr>coverWidth := Some w'\<rparr>)" for oc ot ow u t w' ic
    by (rule getCoverQualityScore_cong) simp_all
  show ?thesis
    using assms a a0 w unfolding toggleCropCover_def cropApplicable_def Let_def
    by (auto simp add: sc)
qed

lemma toggleCropCover_uncrop:
  "toggleCropCover g f q False b =
     b\<lparr>cover := nullish (originalCover b) (cover b),
       thumbnail := nullish (originalThumbnail b) (thumbnail b),
       coverWidth := (case originalWidth b of None \<Rightarrow> coverWidth b | Some w \<Rightarrow> Some w),
       originalCover := None, originalThumbnail := None, originalWidth := None,
       coverIsCropped := Some False,
       coverQualityScore := Some (getCoverQualityScore
          (b\<lparr>coverWidth := (case originalWidth b of None \<Rightarrow> coverWidth b | Some w \<Rightarrow> Some w)\<rparr>))\<rparr>"
proof -
  have sc: "getCoverQualityScore (b\<lparr>cover := u, thumbnail := t, coverWidth := w',
        originalCover := oc, originalThumbnail := ot, originalWidth := ow, coverIsCropped := ic\<rparr>)
      = getCoverQualityScore (b\<lparr>coverWidth := w'\<rparr>)" for oc ot ow u t w' ic
    by (rule getCoverQualityScore_cong) simp_all
  show ?thesis unfolding toggleCropCover_def Let_def by (simp add: sc)
qed

lemma uncrop_crop:
  assumes "cropApplicable b"
  shows "toggleCropCover g f q False (toggleCropCover g f q True b) =
           b\<lparr>originalCover := None, originalThumbnail := None, originalWidth := None,
             coverIsCropped := Some False, coverQualityScore := Some (getCoverQualityScore b)\<rparr>"
proof -
  from toggleCropCover_crop[OF assms, of g f q] obtain u t w where
    c: "toggleCropCover g f q True b =
           b\<lparr>originalCover := Some (cover b), originalThumbnail := Some (thumbnail b),
             originalWidth := coverWidth b, cover := u, thumbnail := t, coverWidth := Some w,
             coverIsCropped := Some True,
             coverQualityScore := Some (getCoverQualityScore (b\<lparr>coverWidth := Some w\<rparr>))\<rparr>"
    by blast
  obtain w0 where w0: "coverWidth b = Some w0"
    using assms by (auto simp: cropApplicable_def truthyNum_def split: option.splits)
  have sc: "getCoverQualityScore (b\<lparr>coverWidth := Some w0\<rparr>) = getCoverQualityScore b"
    by (rule getCoverQualityScore_cong) (simp_all add: w0)
  have sc2: "getCoverQualityScore (x\<lparr>coverWidth := Some w0\<rparr>) = getCoverQualityScore b"
    if "coverHeight x = coverHeight b" "coverFormat x = coverFormat b" "chromaSubsampling x = chromaSubsampling b" for x
    by (rule getCoverQualityScore_cong) (simp_all add: w0 that)
  show ?thesis
    unfolding c toggleCropCover_uncrop
    by (simp add: nullish_def w0 sc2)
qed

lemma crop_uncrop_crop:
  assumes "cropApplicable b"
  shows "toggleCropCover g f q True (toggleCropCover g f q False (toggleCropCover g f q True b))
         = toggleCropCover g f q True b"
proof -
  let ?b' = "b\<lparr>originalCover := None, originalThumbnail := None, originalWidth := None,
             coverIsCropped := Some False, coverQualityScore := Some (getCoverQualityScore b)\<rparr>"
  have sc: "getCoverQualityScore (x\<lparr>coverWidth := w\<rparr>) = getCoverQualityScore (b\<lparr>coverWidth := w\<rparr>)"
    if "coverHeight x = coverHeight b" "coverFormat x = coverFormat b" "chromaSubsampling x = chromaSubsampling b" for x w
    by (rule getCoverQualityScore_cong) (simp_all add: that)
  have sc3: "getCoverQualityScore (x\<lparr>coverWidth := w, coverIsCropped := ic\<rparr>) = getCoverQualityScore (b\<lparr>coverWidth := w\<rparr>)"
    if "coverHeight x = coverHeight b" "coverFormat x = coverFormat b" "chromaSubsampling x = chromaSubsampling b" for x w ic
    by (rule getCoverQualityScore_cong) (simp_all add: that)
  obtain a where a: "calculateCropAmount (the (coverWidth b)) (the (coverHeight b)) = Some a"
    using assms by (auto simp: cropApplicable_def)
  have a0: "a \<noteq> 0" using calculateCropAmount_bound[OF a] by simp
  have "toggleCropCover g f q True ?b' = toggleCropCover g f q True b"
    using assms a a0 unfolding toggleCropCover_def cropApplicable_def Let_def
    by (simp add: truthyBool_def sc3)
  then show ?thesis unfolding uncrop_crop[OF assms] .
qed

lemma crop_already_cropped:
  "truthyBool (coverIsCropped c) \<Longrightarrow> toggleCropCover g f q True c = c"
  by (simp add: toggleCropCover_def)

lemma uncrop_not_cropped:
  assumes "originalCover c = None" "originalThumbnail c = None" "originalWidth c = None"
  shows "toggleCropCover g f q False c =
           c\<lparr>coverIsCropped := Some False, coverQualityScore := Some (getCoverQualityScore c)\<rparr>"
proof -
  have sc: "getCoverQualityScore (c\<lparr>coverWidth := coverWidth c\<rparr>) = getCoverQualityScore c"
    by (rule getCoverQualityScore_cong) simp_all
  have e: "c\<lparr>cover := cover c, thumbnail := thumbnail c, coverWidth := coverWidth c,
        originalCover := None, originalThumbnail := None, originalWidth := None\<rparr> = c"
    using assms by simp
  show ?thesis
    unfolding toggleCropCover_uncrop using assms e by (simp add: nullish_def sc)
qed

text \<open>
  Claim C4, as amended. For every book that is not cropped and has an applicable crop:
  applying the crop stores the pre-crop cover URL, thumbnail URL and width in the backup
  fields and marks the book cropped; un-cropping the cropped book restores these three
  values verbatim, clears the backups and stores the recomputed score, which is the score
  of the book's own metadata; cropping after that gives the cropped book again, so for
  the cropped book \<open>c\<close> the score of \<open>crop (uncrop c)\<close> is the score of \<open>c\<close>; applying
  the crop to the cropped book is a no-op; and un-cropping the book while it is not
  cropped and has no backups leaves cover URL, thumbnail URL and width as they are, sets
  the cropped flag to false and stores the recomputed score.
\<close>

theorem toggleCropCovers_reversible:
  assumes "cropApplicable b"
  shows "originalCover (toggleCropCover g f q True b) = Some (cover b)
       \<and> originalThumbnail (toggleCropCover g f q True b) = Some (thumbnail b)
       \<and> originalWidth (toggleCropCover g f q True b) = coverWidth b
       \<and> coverIsCropped (toggleCropCover g f q True b) = Some True
       \<and> toggleCropCover g f q False (toggleCropCover g f q True b) =
           b\<lparr>originalCover := None, originalThumbnail := None, originalWidth := None,
             coverIsCropped := Some False, coverQualityScore := Some (getCoverQualityScore b)\<rparr>
       \<and> toggleCropCover g f q True
             (toggleCropCover g f q False (toggleCropCover g f q True b))
           = toggleCropCover g f q True b
       \<and> toggleCropCover g f q True (toggleCropCover g f q True b) = toggleCropCover g f q True b
       \<and> (originalCover b = None \<and> originalThumbnail b = None \<and> originalWidth b = None \<longrightarrow>
            toggleCropCover g f q False b =
              b\<lparr>coverIsCropped := Some False, coverQualityScore := Some (getCoverQualityScore b)\<rparr>)"
proof -
  from toggleCropCover_crop[OF assms, of g f q] obtain u t w where
    c: "toggleCropCover g f q True b =
           b\<lparr>originalCover := Some (cover b), originalThumbnail := Some (thumbnail b),
             originalWidth := coverWidth b, cover := u, thumbnail := t, coverWidth := Some w,
             coverIsCropped := Some True,
             coverQualityScore := Some (getCoverQualityScore (b\<lparr>coverWidth := Some w\<rparr>))\<rparr>"
    by blast
  have 1: "originalCover (toggleCropCover g f q True b) = Some (cover b)"
    and 2: "originalThumbnail (toggleCropCover g f q True b) = Some (thumbnail b)"
    and 3: "originalWidth (toggleCropCover g f q True b) = coverWidth b"
    and 4: "coverIsCropped (toggleCropCover g f q True b) = Some True"
    unfolding c by simp_all
  have 5: "toggleCropCover g f q True (toggleCropCover g f q True b) = toggleCropCover g f q True b"
    using 4 by (intro crop_already_cropped) (simp add: truthyBool_def)
  show ?thesis
    using 1 2 3 4 5 uncrop_crop[OF assms, of g f q] crop_uncrop_crop[OF assms, of g f q]
      uncrop_not_cropped[of b g f q]
    by simp
qed

lemma resScore_900_1200: "\<lfloor>sqrt (real (900 * 1200 :: nat)) / 20\<rfloor> = 51"
  using floor_sqrt_div20[of "900 * 1200" 51] by simp

lemma resScore_780_1200: "\<lfloor>sqrt (real (780 * 1200 :: nat)) / 20\<rfloor> = 48"
  using floor_sqrt_div20[of "780 * 1200" 48] by simp

lemma plainKeys_png: "coverFormat x = Some (str ''png'') \<Longrightarrow> plainKeys x"
  by (simp add: plainKeys_def toLowerCase_def objectPrototypeKeys_def str_def)

lemma score_png_900_1200:
  assumes "coverFormat x = Some (str ''png'')" "coverWidth x = Some 900" "coverHeight x = Some 1200"
  shows "getCoverQualityScore x = Finite 34"
proof -
  note p = plainKeys_png[OF assms(1)]
  have r: "spec_resolutionScore x = 51"
    using assms resScore_900_1200 by (simp add: spec_resolutionScore_def numOr_def)
  have f: "spec_formatScore (map_option toLowerCase (coverFormat x)) = 9"
    using assms by (simp add: spec_formatScore_def toLowerCase_def str_def)
  have c: "code_chromaScore (map_option toLowerCase (coverFormat x)) (chromaSubsampling x) = 8"
    using assms by (simp add: code_chromaScore_def toLowerCase_def str_def)
  show ?thesis unfolding getCoverQualityScore_unfold[OF p] r f c round_half by simp
qed

lemma score_png_780_1200:
  assumes "coverFormat x = Some (str ''png'')" "coverWidth x = Some 780" "coverHeight x = Some 1200"
  shows "getCoverQualityScore x = Finite 33"
proof -
  note p = plainKeys_png[OF assms(1)]
  have r: "spec_resolutionScore x = 48"
    using assms resScore_780_1200 by (simp add: spec_resolutionScore_def numOr_def)
  have f: "spec_formatScore (map_option toLowerCase (coverFormat x)) = 9"
    using assms by (simp add: spec_formatScore_def toLowerCase_def str_def)
  have c: "code_chromaScore (map_option toLowerCase (coverFormat x)) (chromaSubsampling x) = 8"
    using assms by (simp add: code_chromaScore_def toLowerCase_def str_def)
  show ?thesis unfolding getCoverQualityScore_unfold[OF p] r f c round_half by simp
qed

lemma fetched_book_applicable: "cropApplicable fetched_book"
  by (simp add: cropApplicable_def fetched_book_def test_book_def truthyBool_def truthyNum_def
      calculateCropAmount_def)

theorem toggleCropCovers_reversible_witness:
  "cropApplicable fetched_book
   \<and> originalWidth (toggleCropCover test_getUrl (str ''jpg'') 98 True fetched_book) = Some 900
   \<and> coverQualityScore (toggleCropCover test_getUrl (str ''jpg'') 98 False
        (toggleCropCover test_getUrl (str ''jpg'') 98 True fetched_book)) = Some (Finite 34)
   \<and> toggleCropCover test_getUrl (str ''jpg'') 98 False fetched_book
        = fetched_book\<lparr>coverIsCropped := Some False\<rparr>"
proof -
  have s: "getCoverQualityScore fetched_book = Finite 34"
    by (rule score_png_900_1200) (simp_all add: fetched_book_def test_book_def)
  show ?thesis
    using toggleCropCovers_reversible[OF fetched_book_applicable, of test_getUrl "str ''jpg''" 98]
      fetched_book_applicable s
    by (simp add: fetched_book_def test_book_def)
qed

text \<open>
  Claim C4 as stated fails twice. A book with an applicable crop is not cropped, and for
  it the score of \<open>crop (uncrop b)\<close> is the score of the cropped cover: 33 against 34 for
  a png of 900 by 1200. And un-cropping a book that is not cropped is not a no-op when the
  stored score is not the recomputed one: a book whose metadata was never fetched has no
  score before and the score 4 after.
\<close>

theorem toggleCropCovers_counterexample:
  "cropApplicable fetched_book
   \<and> coverQualityScore fetched_book = Some (Finite 34)
   \<and> getCoverQualityScore fetched_book = Finite 34
   \<and> coverQualityScore (toggleCropCover test_getUrl (str ''jpg'') 98 True
        (toggleCropCover test_getUrl (str ''jpg'') 98 False fetched_book)) = Some (Finite 33)
   \<and> \<not> truthyBool (coverIsCropped unfetched_book)
   \<and> coverQualityScore unfetched_book = None
   \<and> coverQualityScore (toggleCropCover test_getUrl (str ''jpg'') 98 False unfetched_book) = Some (Finite 4)"
proof -
  let ?crop = "toggleCropCover test_getUrl (str ''jpg'') 98 True"
  let ?uncrop = "toggleCropCover test_getUrl (str ''jpg'') 98 False"
  have s: "getCoverQualityScore fetched_book = Finite 34"
    by (rule score_png_900_1200) (simp_all add: fetched_book_def test_book_def)
  have u: "?uncrop fetched_book = fetched_book\<lparr>coverIsCropped := Some False\<rparr>"
    using uncrop_not_cropped[of fetched_book test_getUrl "str ''jpg''" 98] s
    by (simp add: fetched_book_def test_book_def)
  have ap: "cropApplicable (fetched_book\<lparr>coverIsCropped := Some False\<rparr>)"
    using fetched_book_applicable by (simp add: cropApplicable_def truthyBool_def)
  from toggleCropCover_crop[OF ap, of test_getUrl "str ''jpg''" 98] 
  have fmt: "coverFormat (?crop (fetched_book\<lparr>coverIsCropped := Some False\<rparr>)) = Some (str ''png'')"
    and hgt: "coverHeight (?crop (fetched_book\<lparr>coverIsCropped := Some False\<rparr>)) = Some 1200"
    by (auto simp: fetched_book_def test_book_def)
  have wd: "coverWidth (?crop (fetched_book\<lparr>coverIsCropped := Some False\<rparr>)) = Some 780"
    by (simp add: toggleCropCover_def Let_def fetched_book_def test_book_def truthyBool_def
        truthyNum_def calculateCropAmount_def)
  have sc: "coverQualityScore (?crop (fetched_book\<lparr>coverIsCropped := Some False\<rparr>))
      = Some (getCoverQualityScore (?crop (fetched_book\<lparr>coverIsCropped := Some False\<rparr>)))"
  proof -
    from toggleCropCover_crop[OF ap, of test_getUrl "str ''jpg''" 98] obtain u t w where
      c: "?crop (fetched_book\<lparr>coverIsCropped := Some False\<rparr>) =
           (fetched_book\<lparr>coverIsCropped := Some False\<rparr>)\<lparr>originalCover := Some (cover (fetched_book\<lparr>coverIsCropped := Some False\<rparr>)), originalThumbnail := Some (thumbnail (fetched_book\<lparr>coverIsCropped := Some False\<rparr>)),
             originalWidth := coverWidth (fetched_book\<lparr>coverIsCropped := Some False\<rparr>), cover := u, thumbnail := t, coverWidth := Some w,
             coverIsCropped := Some True,
             coverQualityScore := Some (getCoverQualityScore ((fetched_book\<lparr>coverIsCropped := Some False\<rparr>)\<lparr>coverWidth := Some w\<rparr>))\<rparr>"
      by blast
    show ?thesis unfolding c
      by (simp, rule getCoverQualityScore_cong) simp_all
  qed
  have 1: "coverQualityScore (?crop (?uncrop fetched_book)) = Some (Finite 33)"
    unfolding u sc using score_png_780_1200[OF fmt wd hgt] by simp
  have 2: "coverQualityScore (?uncrop unfetched_book) = Some (Finite 4)"
  proof -
    have p: "plainKeys unfetched_book"
      by (simp add: plainKeys_def unfetched_book_def)
    have "getCoverQualityScore unfetched_book = Finite 4"
      unfolding getCoverQualityScore_unfold[OF p] round_half
      by (simp add: unfetched_book_def spec_resolutionScore_def numOr_def spec_formatScore_def
          code_chromaScore_def)
    then show ?thesis
      using uncrop_not_cropped[of unfetched_book test_getUrl "str ''jpg''" 98]
      by (simp add: unfetched_book_def)
  qed
  show ?thesis
    using fetched_book_applicable s 1 2
    by (simp add: fetched_book_def unfetched_book_def truthyBool_def)
qed

section \<open>One cover per volume\<close>

lemma compareBooks_le0:
  "compareBooks sbp ps a b \<le> 0 \<longleftrightarrow> winsOver sbp ps a b"
  by (auto simp: compareBooks_def winsOver_def pagePreferred_def quality_def providerIndex_def Let_def)

lemma winsOver_total: "winsOver sbp ps a b \<or> winsOver sbp ps b a"
  by (auto simp: winsOver_def)

lemma lex3_trans: "lex3 x y \<Longrightarrow> lex3 y z \<Longrightarrow> lex3 x z"
  by (cases x; cases y; cases z) (simp add: lex3_def, linarith)

lemma winsOver_lex3:
  "winsOver sbp ps a b \<longleftrightarrow>
     lex3 (if pagePreferred sbp a then 0 else 1, - quality a, providerIndex ps a)
          (if pagePreferred sbp b then 0 else 1, - quality b, providerIndex ps b)"
  by (simp add: winsOver_def lex3_def)

lemma winsOver_trans: "winsOver sbp ps a b \<Longrightarrow> winsOver sbp ps b c \<Longrightarrow> winsOver sbp ps a c"
  unfolding winsOver_lex3 by (rule lex3_trans)

lemma set_sortInsert: "set (sortInsert cmp x ys) = insert x (set ys)"
  by (induction ys) auto

lemma set_jsSort: "set (jsSort cmp xs) = set xs"
  unfolding jsSort_def by (induction xs) (auto simp: set_sortInsert)

lemma jsSort_Cons: "jsSort cmp (x # xs) = sortInsert cmp x (jsSort cmp xs)"
  by (simp add: jsSort_def)

lemma hd_sortInsert:
  "hd (sortInsert cmp x ys) = (if ys = [] \<or> cmp x (hd ys) \<le> 0 then x else hd ys)"
  by (cases ys) auto

lemma jsSort_hd_minimal:
  assumes tot: "\<And>a b. cmp a b \<le> 0 \<or> cmp b a \<le> 0"
    and trans: "\<And>a b c. cmp a b \<le> 0 \<Longrightarrow> cmp b c \<le> 0 \<Longrightarrow> cmp a c \<le> 0"
    and ne: "xs \<noteq> []"
  shows "\<forall>y \<in> set xs. cmp (hd (jsSort cmp xs)) y \<le> 0"
  using ne
proof (induction xs)
  case Nil
  then show ?case by simp
next
  case (Cons x xs)
  show ?case
  proof (cases "xs = []")
    case True
    then show ?thesis using tot[of x x] by (simp add: jsSort_def)
  next
    case False
    with Cons.IH have ih: "\<forall>y \<in> set xs. cmp (hd (jsSort cmp xs)) y \<le> 0" by simp
    have ne': "jsSort cmp xs \<noteq> []" using False set_jsSort[of cmp xs] by auto
    show ?thesis
    proof (cases "cmp x (hd (jsSort cmp xs)) \<le> 0")
      case True
      then have h: "hd (jsSort cmp (x # xs)) = x"
        by (simp add: jsSort_Cons hd_sortInsert)
      have "cmp x y \<le> 0" if "y \<in> set xs" for y
        using trans[OF True] ih that by blast
      moreover have "cmp x x \<le> 0" using tot[of x x] by simp
      ultimately show ?thesis unfolding h by simp
    next
      case False
      then have h: "hd (jsSort cmp (x # xs)) = hd (jsSort cmp xs)"
        using ne' by (simp add: jsSort_Cons hd_sortInsert)
      from False tot[of x "hd (jsSort cmp xs)"] have "cmp (hd (jsSort cmp xs)) x \<le> 0" by auto
      then show ?thesis unfolding h using ih by auto
    qed
  qed
qed

lemma pickOfGroup_winner:
  assumes "g \<noteq> []"
  shows "\<exists>w \<in> set g. pickOfGroup sbp ps g = [fst w]
           \<and> (\<forall>y \<in> set g. winsOver sbp ps (snd w) (snd y))"
proof -
  let ?cmp = "\<lambda>a b. compareBooks sbp ps (snd a) (snd b)"
  have ne: "jsSort ?cmp g \<noteq> []" using assms set_jsSort[of ?cmp g] by auto
  then obtain w rest where s: "jsSort ?cmp g = w # rest" by (cases "jsSort ?cmp g") auto
  have w_in: "w \<in> set g" using set_jsSort[of ?cmp g] s by auto
  have min: "\<forall>y \<in> set g. ?cmp (hd (jsSort ?cmp g)) y \<le> 0"
  proof (rule jsSort_hd_minimal[OF _ _ assms])
    show "?cmp a b \<le> 0 \<or> ?cmp b a \<le> 0" for a b
      using winsOver_total[of sbp ps "snd a" "snd b"] by (simp add: compareBooks_le0)
    show "?cmp a b \<le> 0 \<Longrightarrow> ?cmp b c \<le> 0 \<Longrightarrow> ?cmp a c \<le> 0" for a b c
      using winsOver_trans[of sbp ps "snd a" "snd b" "snd c"] by (simp add: compareBooks_le0)
  qed
  then have min': "\<forall>y \<in> set g. winsOver sbp ps (snd w) (snd y)"
    by (simp add: s compareBooks_le0)
  show ?thesis
  proof (cases "length g = 1")
    case True
    then obtain x where g: "g = [x]" by (cases g) auto
    then have "w = x" using w_in by simp
    then show ?thesis using g min' by (simp add: pickOfGroup_def)
  next
    case False
    then show ?thesis using s w_in min' by (auto simp: pickOfGroup_def)
  qed
qed

lemma map_of_groupPush:
  "map_of (groupPush m b) k =
     (if k = volumeName (snd b)
      then Some ((case map_of m k of None \<Rightarrow> [] | Some g \<Rightarrow> g) @ [b])
      else map_of m k)"
  by (induction m b rule: groupPush.induct) auto

lemma set_keys_groupPush:
  "fst ` set (groupPush m b) = insert (volumeName (snd b)) (fst ` set m)"
  by (induction m b rule: groupPush.induct) auto

lemma distinct_groupPush:
  "distinct (map fst m) \<Longrightarrow> distinct (map fst (groupPush m b))"
proof (induction m b rule: groupPush.induct)
  case (1 b)
  then show ?case by simp
next
  case (2 k bs m b)
  then show ?case using set_keys_groupPush[of m b] by auto
qed

lemma distinct_foldl_groupPush:
  "distinct (map fst m) \<Longrightarrow> distinct (map fst (foldl groupPush m bs))"
  by (induction bs arbitrary: m) (auto simp: distinct_groupPush)

lemma map_of_foldl_groupPush:
  "map_of (foldl groupPush m bs) k =
     (if groupOf k bs = [] then map_of m k
      else Some ((case map_of m k of None \<Rightarrow> [] | Some g \<Rightarrow> g) @ groupOf k bs))"
proof (induction bs arbitrary: m)
  case Nil
  then show ?case by (simp add: groupOf_def)
next
  case (Cons b bs)
  show ?case
    by (simp add: Cons.IH map_of_groupPush) (auto simp: groupOf_def split: option.splits)
qed

lemma groups_of_books:
  "(k, g) \<in> set (foldl groupPush [] books) \<longleftrightarrow> g = groupOf k books \<and> g \<noteq> []"
proof -
  have d: "distinct (map fst (foldl groupPush [] books))"
    by (rule distinct_foldl_groupPush) simp
  have "(k, g) \<in> set (foldl groupPush [] books) \<longleftrightarrow> map_of (foldl groupPush [] books) k = Some g"
    using d by simp
  also have "\<dots> \<longleftrightarrow> g = groupOf k books \<and> g \<noteq> []"
    by (auto simp: map_of_foldl_groupPush)
  finally show ?thesis .
qed

lemma filter_eq_singleton:
  "distinct xs \<Longrightarrow> w \<in> set xs \<Longrightarrow> filter (\<lambda>x. x = w) xs = [w]"
  by (induction xs) (auto simp: filter_empty_conv)

lemma pick_per_volume:
  assumes dist: "distinct (map fst books)" and b: "b \<in> set books"
  shows "\<exists>w \<in> set books. volumeName (snd w) = volumeName (snd b)
           \<and> filter (\<lambda>x. volumeName (snd x) = volumeName (snd b))
                (automaticallyPickCovers sbp ps books) = [w]
           \<and> (\<forall>y \<in> set books. volumeName (snd y) = volumeName (snd b)
                 \<longrightarrow> winsOver sbp ps (snd w) (snd y))"
proof -
  let ?k = "volumeName (snd b)"
  let ?g = "groupOf ?k books"
  let ?grp = "foldl groupPush [] books"
  define K where "K = set (concat (map (\<lambda>(k, volumeBooks). pickOfGroup sbp ps volumeBooks) ?grp))"
  have gne: "?g \<noteq> []" using b by (auto simp: groupOf_def filter_empty_conv)
  from pickOfGroup_winner[OF gne, of sbp ps] obtain w where
    w: "w \<in> set ?g" "pickOfGroup sbp ps ?g = [fst w]"
       "\<forall>y \<in> set ?g. winsOver sbp ps (snd w) (snd y)"
    by blast
  have w_books: "w \<in> set books" and w_vol: "volumeName (snd w) = ?k"
    using w(1) by (auto simp: groupOf_def)
  have dbooks: "distinct books" using dist by (rule distinct_map[THEN iffD1, THEN conjunct1])
  have inj: "x = y" if "x \<in> set books" "y \<in> set books" "fst x = fst y" for x y
    using dist that by (meson distinct_map inj_onD)
  have K_iff: "n \<in> K \<longleftrightarrow> (\<exists>k g. (k, g) \<in> set ?grp \<and> n \<in> set (pickOfGroup sbp ps g))" for n
    unfolding K_def by auto
  have key: "(volumeName (snd x) = ?k \<and> fst x \<in> K) \<longleftrightarrow> x = w" if x: "x \<in> set books" for x
  proof
    assume "x = w"
    moreover have "(?k, ?g) \<in> set ?grp" using gne by (simp add: groups_of_books)
    ultimately show "volumeName (snd x) = ?k \<and> fst x \<in> K"
      using w_vol w(2) unfolding K_iff by force
  next
    assume a: "volumeName (snd x) = ?k \<and> fst x \<in> K"
    then obtain k' g' where kg: "(k', g') \<in> set ?grp" "fst x \<in> set (pickOfGroup sbp ps g')"
      unfolding K_iff by blast
    then have g': "g' = groupOf k' books" "g' \<noteq> []" by (auto simp: groups_of_books)
    from pickOfGroup_winner[OF g'(2), of sbp ps] obtain w' where
      w': "w' \<in> set g'" "pickOfGroup sbp ps g' = [fst w']" by blast
    have "w' \<in> set books" "volumeName (snd w') = k'"
      using w'(1) g'(1) by (auto simp: groupOf_def)
    moreover have "fst x = fst w'" using kg(2) w'(2) by simp
    ultimately have "x = w'" "k' = ?k" using inj[OF x] a by auto
    then have "fst x = fst w" using kg(2) g'(1) w(2) by simp
    then show "x = w" using inj[OF x w_books] by simp
  qed
  have "filter (\<lambda>x. volumeName (snd x) = ?k) (automaticallyPickCovers sbp ps books)
        = filter (\<lambda>x. volumeName (snd x) = ?k \<and> fst x \<in> K) books"
    by (simp add: automaticallyPickCovers_def Let_def conj_commute K_def)
  also have "\<dots> = filter (\<lambda>x. x = w) books"
    by (rule filter_cong[OF refl]) (use key in blast)
  also have "\<dots> = [w]" by (rule filter_eq_singleton[OF dbooks w_books])
  finally have one: "filter (\<lambda>x. volumeName (snd x) = ?k) (automaticallyPickCovers sbp ps books) = [w]" .
  have "\<forall>y \<in> set books. volumeName (snd y) = ?k \<longrightarrow> winsOver sbp ps (snd w) (snd y)"
    using w(3) by (auto simp: groupOf_def)
  then show ?thesis using w_books w_vol one by blast
qed

text \<open>
  Claim C2. For every merged book set (an array of pairwise different book objects) the
  automatic quality pick is the input with the suppressed books filtered out; it keeps
  exactly one book of every volume-name group; a book that is alone in its group is kept;
  and the book kept for a group sorts ahead of or level with every book of the group:
  first, when a page index is selected, by its provider supporting per-book pages, second
  by the higher quality score, third by the earlier position of its provider in the
  provider list.
\<close>

theorem automaticallyPickCovers_one_per_volume:
  assumes "distinct (map fst books)"
  shows "automaticallyPickCovers sbp ps books
           = filter (\<lambda>b. b \<in> set (automaticallyPickCovers sbp ps books)) books
       \<and> (\<forall>b \<in> set books.
            length (filter (\<lambda>x. volumeName (snd x) = volumeName (snd b))
                      (automaticallyPickCovers sbp ps books)) = 1)
       \<and> (\<forall>b \<in> set books.
            length (filter (\<lambda>x. volumeName (snd x) = volumeName (snd b)) books) = 1
            \<longrightarrow> b \<in> set (automaticallyPickCovers sbp ps books))
       \<and> (\<forall>w \<in> set (automaticallyPickCovers sbp ps books). \<forall>y \<in> set books.
            volumeName (snd y) = volumeName (snd w) \<longrightarrow> winsOver sbp ps (snd w) (snd y))"
proof -
  let ?pick = "automaticallyPickCovers sbp ps books"
  obtain P where P: "?pick = filter P books"
    by (simp add: automaticallyPickCovers_def Let_def)
  have sub: "set ?pick \<subseteq> set books" unfolding P by auto
  have 1: "?pick = filter (\<lambda>b. b \<in> set ?pick) books"
  proof -
    have "filter (\<lambda>b. b \<in> set ?pick) books = filter P books"
      by (rule filter_cong[OF refl]) (simp add: P)
    then show ?thesis using P by simp
  qed
  have 2: "length (filter (\<lambda>x. volumeName (snd x) = volumeName (snd b)) ?pick) = 1"
    if "b \<in> set books" for b
    using pick_per_volume[OF assms that, of sbp ps] by auto
  have 3: "b \<in> set ?pick"
    if b: "b \<in> set books"
      and one: "length (filter (\<lambda>x. volumeName (snd x) = volumeName (snd b)) books) = 1" for b
  proof -
    from pick_per_volume[OF assms b, of sbp ps] obtain w where
      w: "w \<in> set books" "volumeName (snd w) = volumeName (snd b)"
         "filter (\<lambda>x. volumeName (snd x) = volumeName (snd b)) ?pick = [w]"
      by blast
    from one obtain z where z: "filter (\<lambda>x. volumeName (snd x) = volumeName (snd b)) books = [z]"
      by (cases "filter (\<lambda>x. volumeName (snd x) = volumeName (snd b)) books") auto
    have "b \<in> set (filter (\<lambda>x. volumeName (snd x) = volumeName (snd b)) books)"
      using b by simp
    moreover have "w \<in> set (filter (\<lambda>x. volumeName (snd x) = volumeName (snd b)) books)"
      using w by simp
    ultimately have "b = w" unfolding z by simp
    moreover have "w \<in> set (filter (\<lambda>x. volumeName (snd x) = volumeName (snd b)) ?pick)"
      unfolding w(3) by simp
    ultimately show ?thesis by simp
  qed
  have 4: "winsOver sbp ps (snd w) (snd y)"
    if w: "w \<in> set ?pick" and y: "y \<in> set books"
      and v: "volumeName (snd y) = volumeName (snd w)" for w y
  proof -
    have wb: "w \<in> set books" using w sub by blast
    from pick_per_volume[OF assms wb, of sbp ps] obtain w' where
      w': "filter (\<lambda>x. volumeName (snd x) = volumeName (snd w)) ?pick = [w']"
          "\<forall>y \<in> set books. volumeName (snd y) = volumeName (snd w)
                 \<longrightarrow> winsOver sbp ps (snd w') (snd y)"
      by blast
    have "w \<in> set (filter (\<lambda>x. volumeName (snd x) = volumeName (snd w)) ?pick)"
      using w by simp
    then have "w = w'" unfolding w'(1) by simp
    then show ?thesis using w'(2) y v by blast
  qed
  show ?thesis using 1 2 3 4 by blast
qed

lemma example_pick:
  "map fst (automaticallyPickCovers 0 example_providers example_books) = [2, 3]"
  by (simp add: automaticallyPickCovers_def example_books_def example_book_def
      example_providers_def test_book_def test_provider_def pickOfGroup_def jsSort_def
      compareBooks_def scoreOr0_def str_def Let_def)

theorem automaticallyPickCovers_one_per_volume_witness:
  "distinct (map fst example_books)
   \<and> length (filter (\<lambda>x. volumeName (snd x) = str ''Volume 1'')
               (automaticallyPickCovers 0 example_providers example_books)) = 1
   \<and> map fst (automaticallyPickCovers 0 example_providers example_books) = [2, 3]"
proof -
  have d: "distinct (map fst example_books)" by (simp add: example_books_def)
  have "length (filter (\<lambda>x. volumeName (snd x) = volumeName (snd (example_books ! 0)))
               (automaticallyPickCovers 0 example_providers example_books)) = 1"
    using automaticallyPickCovers_one_per_volume[OF d, of 0 example_providers]
    by (simp add: example_books_def)
  then show ?thesis using d example_pick
    by (simp add: example_books_def example_book_def)
qed

section \<open>Filename collisions in a packaging run\<close>

lemma map_of_recordSet: "map_of (recordSet m k v) = (map_of m)(k \<mapsto> v)"
  by (induction m k v rule: recordSet.induct) auto

lemma proto_inherited: "str ''__proto__'' \<in> set objectPrototypeKeys"
  by (simp add: objectPrototypeKeys_def)

lemma getProp_plain:
  "name \<notin> set objectPrototypeKeys \<Longrightarrow>
   getProp m name = (case map_of m name of None \<Rightarrow> Absent | Some v \<Rightarrow> Own v)"
  by (simp add: getProp_def split: option.splits)

lemma setProp_plain:
  "name \<notin> set objectPrototypeKeys \<Longrightarrow> setProp m name v = recordSet m name v"
  using proto_inherited by (auto simp: setProp_def)

lemma splitLastDot_lastIndexOf:
  "(splitLastDot s = None \<longrightarrow> lastIndexOf s 46 = - 1)
   \<and> (\<forall>front back. splitLastDot s = Some (front, back) \<longrightarrow>
         lastIndexOf s 46 = int (length front) \<and> s = front @ back)"
proof (induction s)
  case Nil
  then show ?case by simp
next
  case (Cons c cs)
  show ?case
  proof (cases "splitLastDot cs")
    case None
    then show ?thesis using Cons by (simp add: Let_def)
  next
    case (Some p)
    obtain f b where p: "p = (f, b)" by (cases p)
    have "lastIndexOf cs 46 = int (length f)" "cs = f @ b"
      using Cons Some p by blast+
    then show ?thesis using Some p by (simp add: Let_def)
  qed
qed

lemma showInt_int: "showInt (int c) = showNat c"
  by (simp add: showInt_def)

lemma insertCounter_code:
  "(let lastDotIndex = lastIndexOf name 46 in
    if lastDotIndex > 0 then
      (let nameWithoutExt = take (nat lastDotIndex) name;
           extension = drop (nat lastDotIndex) name
       in filterFilename e
            (nameWithoutExt @ str '' ('' @ showInt (int c) @ str '')'' @ extension) True)
    else filterFilename e (name @ str '' ('' @ showInt (int c) @ str '')'') True)
   = filterFilename e (insertCounter name c) True"
proof (cases "splitLastDot name")
  case None
  then have "lastIndexOf name 46 = - 1" using splitLastDot_lastIndexOf[of name] by simp
  then show ?thesis
    using None by (simp add: insertCounter_def counterSuffix_def showInt_int)
next
  case (Some p)
  obtain f b where p: "p = (f, b)" by (cases p)
  have l: "lastIndexOf name 46 = int (length f)" and n: "name = f @ b"
    using splitLastDot_lastIndexOf[of name] Some p by blast+
  have s: "splitLastDot (f @ b) = Some (f, b)" using Some p n by simp
  have l': "lastIndexOf (f @ b) 46 = int (length f)" using l n by simp
  show ?thesis
    unfolding n Let_def l' insertCounter_def s
    by (simp add: counterSuffix_def showInt_int)
qed

lemma packStep_not_eligible:
  assumes "eligibleName e s x = None"
  shows "\<exists>s'. packStep e (Stored s z) x = Stored s' z
    \<and> knownFilenames s' = knownFilenames s
    \<and> allSeries s' = allSeries s
    \<and> savedFiles s' = savedFiles s"
proof (cases x)
  case (Pair book image)
  show ?thesis
  proof (cases image)
    case None
    then show ?thesis unfolding Pair by (simp add: packStep_def reportError_def)
  next
    case (Some buf)
    show ?thesis
    proof (cases "fileTypeFromBuffer e buf")
      case None
      then show ?thesis unfolding Pair Some by (simp add: packStep_def reportError_def)
    next
      case (Some ft)
      with assms have "\<not> startsWith (mime ft) (str ''image/'')"
        unfolding Pair \<open>image = Some buf\<close> by (simp add: eligibleName_def split: if_splits)
      then show ?thesis unfolding Pair \<open>image = Some buf\<close>
        by (simp add: packStep_def reportError_def Some)
    qed
  qed
qed

lemma packStep_eligible:
  assumes "eligibleName e s (book, Some buf) = Some name"
    and "name \<notin> set objectPrototypeKeys"
    and "map_of (knownFilenames s) name = counterAfter c"
    and "resolvedName e name c \<noteq> str ''__proto__''"
  shows "packStep e (Stored s z) (book, Some buf) =
           Stored (s\<lparr>knownFilenames := recordSet (knownFilenames s) name (Finite (int c))\<rparr>)
             (recordSet z (resolvedName e name c) buf)"
proof -
  from assms(1) obtain ft where ft: "fileTypeFromBuffer e buf = Some ft"
      "startsWith (mime ft) (str ''image/'')" and nm: "renderedName e s book ft = name"
    by (auto simp: eligibleName_def split: option.splits if_splits)
  have nm': "filterFilename e
           ((if parseTextVariables e (allSeries s) (coverPathSetting e) (Some book) None \<noteq> []
             then parseTextVariables e (allSeries s) (coverPathSetting e) (Some book) None @ str ''/''
             else [])
              @ parseTextVariables e (allSeries s) (coverFilenameSetting e) (Some book) (Some (ext ft)))
           True = name"
    using nm by (simp add: renderedName_def Let_def)
  have known: "(case getProp (knownFilenames s) name of
                  Absent \<Rightarrow> setProp (knownFilenames s) name (Finite 0)
                | Own v \<Rightarrow> setProp (knownFilenames s) name (increment v)
                | Inherited \<Rightarrow> setProp (knownFilenames s) name NaN)
               = recordSet (knownFilenames s) name (Finite (int c))"
    using assms(3)
    by (simp add: getProp_plain[OF assms(2)] setProp_plain[OF assms(2)] counterAfter_def
        increment_def split: if_splits)
  have rd: "getProp (recordSet (knownFilenames s) name (Finite (int c))) name = Own (Finite (int c))"
    by (simp add: getProp_plain[OF assms(2)] map_of_recordSet)
  have fin: "(if int c > 0 then
                (if lastIndexOf name 46 > 0 then
                   filterFilename e
                     (take (nat (lastIndexOf name 46)) name @ str '' ('' @ showInt (int c) @ str '')''
                        @ drop (nat (lastIndexOf name 46)) name) True
                 else filterFilename e (name @ str '' ('' @ showInt (int c) @ str '')'') True)
              else name) = resolvedName e name c"
    using insertCounter_code[of name e c, unfolded Let_def] by (simp add: resolvedName_def)
  show ?thesis
    unfolding packStep_def
    apply (simp only: packed.case prod.case option.case Let_def ft option.sel nm' known rd
        property.case jsnumber.case fin)
    using ft(2) assms(4) by simp
qed

lemma eligibleName_allSeries:
  "allSeries s' = allSeries s \<Longrightarrow> eligibleName e s' x = eligibleName e s x"
proof -
  assume a: "allSeries s' = allSeries s"
  have "renderedName e s' b ft = renderedName e s b ft" for b ft
    by (simp add: renderedName_def a)
  then show ?thesis by (simp add: eligibleName_def split: option.splits)
qed

lemma eligibleName_Some:
  "eligibleName e s x = Some name \<Longrightarrow> \<exists>book buf. x = (book, Some buf)"
  by (cases x; cases "snd x") (auto simp: eligibleName_def)

lemma sameNameBefore_snoc:
  "sameNameBefore e s (es @ [x]) name =
     sameNameBefore e s es name + (if eligibleName e s x = Some name then 1 else 0)"
  by (simp add: sameNameBefore_def)

lemma namedEntries_snoc:
  "namedEntries e s (es @ [x]) =
     namedEntries e s es
       @ (case eligibleName e s x of
            None \<Rightarrow> []
          | Some name \<Rightarrow> [(resolvedName e name (sameNameBefore e s es name), the (snd x))])"
proof -
  have u: "[0..<length (es @ [x])] = [0..<length es] @ [length es]" by simp
  have m: "map (\<lambda>i. case eligibleName e s ((es @ [x]) ! i) of
                   None \<Rightarrow> []
                 | Some name \<Rightarrow>
                     [(resolvedName e name (sameNameBefore e s (take i (es @ [x])) name),
                       the (snd ((es @ [x]) ! i)))]) [0..<length es]
        = map (\<lambda>i. case eligibleName e s (es ! i) of
                   None \<Rightarrow> []
                 | Some name \<Rightarrow>
                     [(resolvedName e name (sameNameBefore e s (take i es) name),
                       the (snd (es ! i)))]) [0..<length es]"
    by (rule map_cong[OF refl]) (auto simp: nth_append split: option.splits)
  show ?thesis
    unfolding namedEntries_def u map_append concat_append m
    by (simp cong: option.case_cong)
qed

lemma storeAll_snoc:
  "storeAll (named @ [entry]) = recordSet (storeAll named) (fst entry) (snd entry)"
  by (simp add: storeAll_def)

lemma plainNames_snoc:
  assumes "plainNames e s (es @ [x])"
  shows "plainNames e s es"
    and "eligibleName e s x = Some name \<Longrightarrow> name \<notin> set objectPrototypeKeys"
    and "eligibleName e s x = Some name \<Longrightarrow>
           resolvedName e name (sameNameBefore e s es name) \<noteq> str ''__proto__''"
  using assms by (auto simp: plainNames_def namedEntries_snoc)

lemma foldl_packStep:
  assumes "knownFilenames s = []" and "plainNames e s es"
  shows "\<exists>s'. foldl (packStep e) (Stored s []) es = Stored s' (storeAll (namedEntries e s es))
           \<and> allSeries s' = allSeries s \<and> savedFiles s' = savedFiles s
           \<and> (\<forall>name. map_of (knownFilenames s') name = counterAfter (sameNameBefore e s es name))"
  using assms(2)
proof (induction es rule: rev_induct)
  case Nil
  then show ?case
    using assms(1) by (simp add: namedEntries_def storeAll_def sameNameBefore_def counterAfter_def)
next
  case (snoc x es)
  note pl = plainNames_snoc[OF snoc.prems]
  from snoc.IH[OF pl(1)] obtain s' where
    f: "foldl (packStep e) (Stored s []) es = Stored s' (storeAll (namedEntries e s es))"
    and a: "allSeries s' = allSeries s" and sv: "savedFiles s' = savedFiles s"
    and k: "\<And>name. map_of (knownFilenames s') name = counterAfter (sameNameBefore e s es name)"
    by blast
  show ?case
  proof (cases "eligibleName e s x")
    case None
    then have "eligibleName e s' x = None" using eligibleName_allSeries[OF a] by simp
    from packStep_not_eligible[OF this, of "storeAll (namedEntries e s es)"]
    obtain s'' where p: "packStep e (Stored s' (storeAll (namedEntries e s es))) x
          = Stored s'' (storeAll (namedEntries e s es))"
      and p': "knownFilenames s'' = knownFilenames s'" "allSeries s'' = allSeries s'"
        "savedFiles s'' = savedFiles s'"
      by blast
    show ?thesis
      using None p p' a sv k
      by (simp add: f namedEntries_snoc sameNameBefore_snoc)
  next
    case (Some name)
    then obtain book buf where x: "x = (book, Some buf)" using eligibleName_Some by blast
    have el: "eligibleName e s' (book, Some buf) = Some name"
      using Some eligibleName_allSeries[OF a] x by simp
    let ?c = "sameNameBefore e s es name"
    have p: "packStep e (Stored s' (storeAll (namedEntries e s es))) x =
           Stored (s'\<lparr>knownFilenames := recordSet (knownFilenames s') name (Finite (int ?c))\<rparr>)
             (recordSet (storeAll (namedEntries e s es)) (resolvedName e name ?c) buf)"
      unfolding x by (rule packStep_eligible[OF el pl(2)[OF Some] k pl(3)[OF Some]])
    have c: "map_of (recordSet (knownFilenames s') name (Finite (int ?c))) name'
             = counterAfter (sameNameBefore e s (es @ [x]) name')" for name'
      using Some k[of name']
      by (simp add: map_of_recordSet sameNameBefore_snoc counterAfter_def)
    show ?thesis
      using Some p a sv c
      by (simp add: f namedEntries_snoc storeAll_snoc x)
  qed
qed

lemma saveImages_savedFiles:
  assumes "allSeries s' = allSeries s" and "savedFiles s' = savedFiles s"
  shows "savedFiles (saveImages e s' z) = savedFiles (saveImages e s z)"
  using assms by (simp add: saveImages_def Let_def split: prod.splits)

lemma downloadSelectedCovers_loop:
  assumes "downloadProgress s = None"
    and "getCovers e (map cover (selectedBooks s)) = Some images"
  shows "downloadSelectedCovers e s =
           (endOfLoop e (foldl (packStep e) (Stored (loopStart s) []) (runEntries s images)))
             \<lparr>knownFilenames := [], downloadProgress := None\<rparr>"
  using assms by (simp add: downloadSelectedCovers_def Let_def loopStart_def runEntries_def)

lemma loopStart_simps:
  "knownFilenames (loopStart s) = knownFilenames s"
  "allSeries (loopStart s) = allSeries s"
  "savedFiles (loopStart s) = savedFiles s"
  by (simp_all add: loopStart_def)

lemma loopStart_names:
  "namedEntries e (loopStart s) es = namedEntries e s es"
  "sameNameBefore e (loopStart s) es name = sameNameBefore e s es name"
  "plainNames e (loopStart s) es = plainNames e s es"
proof -
  have el: "eligibleName e (loopStart s) x = eligibleName e s x" for x
    by (rule eligibleName_allSeries) (simp add: loopStart_simps)
  show 1: "sameNameBefore e (loopStart s) es name = sameNameBefore e s es name" for es name
    by (simp add: sameNameBefore_def el)
  show 2: "namedEntries e (loopStart s) es = namedEntries e s es"
    by (simp add: namedEntries_def el 1 cong: option.case_cong)
  show "plainNames e (loopStart s) es = plainNames e s es"
    by (simp add: plainNames_def el 2)
qed


lemma downloadSelectedCovers_stored:
  assumes "downloadProgress s = None" and "knownFilenames s = []"
    and "getCovers e (map cover (selectedBooks s)) = Some images"
    and "plainNames e s (runEntries s images)"
  shows "savedFiles (downloadSelectedCovers e s)
           = savedFiles (saveImages e s (storeAll (namedEntries e s (runEntries s images))))"
proof -
  have k: "knownFilenames (loopStart s) = []" using assms(2) by (simp add: loopStart_simps)
  have pl: "plainNames e (loopStart s) (runEntries s images)"
    using assms(4) by (simp add: loopStart_names)
  from foldl_packStep[OF k pl] obtain s' where
    f: "foldl (packStep e) (Stored (loopStart s) []) (runEntries s images)
          = Stored s' (storeAll (namedEntries e s (runEntries s images)))"
    and a: "allSeries s' = allSeries s" and sv: "savedFiles s' = savedFiles s"
    by (auto simp: loopStart_names loopStart_simps)
  show ?thesis
    unfolding downloadSelectedCovers_loop[OF assms(1,3)] f
    by (simp add: endOfLoop_def saveImages_savedFiles[OF a sv])
qed


lemma showNat_1: "showNat 1 = str ''1''"
  by (simp add: showNat.simps str_def)

lemma showNat_Suc0: "showNat (Suc 0) = str ''1''"
  using showNat_1 by simp



lemma insertCounter_a_jpg: "insertCounter (str ''a.jpg'') 1 = str ''a (1).jpg''"
  by (simp add: insertCounter_def counterSuffix_def showNat_Suc0 str_def)





lemma test_parse_path:
  "parseTextVariables test_env series [] (Some b) None = []"
  by (simp add: parseTextVariables_def test_env_def test_replace_def str_def)

lemma test_eligibleName:
  "allSeries s = [] \<Longrightarrow>
   eligibleName test_env s (titled_book t c, Some buf) = Some (t @ str ''.jpg'')"
  by (simp add: eligibleName_def renderedName_def parseTextVariables_def test_env_def
      test_replace_def titled_book_def unfetched_book_def startsWith_def
      strOr_def truthyStr_def str_def)

lemma test_resolvedName:
  "resolvedName test_env name n = (if n = 0 then name else insertCounter name n)"
  by (simp add: resolvedName_def test_env_def)

lemma upt_3: "[0..<3] = [0, 1, 2]"
  by (simp add: upt_rec)


lemma test_zipName:
  "parseTextVariables test_env series (str ''covers.zip'') None (Some (str ''zip'')) = str ''covers.zip''"
  by (simp add: parseTextVariables_def test_env_def test_replace_def str_def)

lemma saveImages_two:
  assumes "\<not> isArrayIndex k1" "\<not> isArrayIndex k2"
  shows "saveImages test_env s [(k1, v1), (k2, v2)] =
           s\<lparr>savedFiles := savedFiles s @ [SavedZip (str ''covers.zip'') 0 [(k1, v1), (k2, v2)]]\<rparr>"
proof -
  have z: "zipFilenameSetting test_env = str ''covers.zip''" by (simp add: test_env_def)
  have ne: "str ''covers.zip'' \<noteq> []" by (simp add: str_def)
  have o: "ownEntries [(k1, v1), (k2, v2)] = [(k1, v1), (k2, v2)]"
    using assms by (simp add: ownEntries_def)
  show ?thesis
    unfolding saveImages_def ownKeys_def o Let_def z test_zipName using ne by simp
qed

lemma name_not_index:
  "\<not> isArrayIndex (str ''name.jpg'')" "\<not> isArrayIndex (str ''name (1).jpg'')"
  "\<not> isArrayIndex (str ''a.jpg'')" "\<not> isArrayIndex (str ''a (1).jpg'')"
  "\<not> isArrayIndex (str ''my.dir/file'')" "\<not> isArrayIndex (str ''my (1).dir/file'')"
  "\<not> isArrayIndex (str ''constructor'')"
  by (simp_all add: isArrayIndex_def str_def)

lemma test_allSeries: "allSeries (test_downloader books) = []"
  by (simp add: test_downloader_def)



lemma not_inherited_jpg: "t @ str ''.jpg'' \<notin> set objectPrototypeKeys"
proof
  assume "t @ str ''.jpg'' \<in> set objectPrototypeKeys"
  moreover have "\<forall>k \<in> set objectPrototypeKeys. 46 \<notin> set k"
    by (simp add: objectPrototypeKeys_def str_def)
  moreover have "46 \<in> set (t @ str ''.jpg'')" by (simp add: str_def)
  ultimately show False by blast
qed







lemma test_getCovers:
  "getCovers test_env urls = Some (map Some urls)"
  "getCovers dir_env urls = Some (map Some urls)"
  "getCovers title_env urls = Some (map Some urls)"
  by (simp_all add: test_env_def dir_env_def title_env_def)


lemma test_covers3:
  "map cover (selectedBooks
     (test_downloader [titled_book t1 c1, titled_book t2 c2, titled_book t3 c3])) = [c1, c2, c3]"
  by (simp add: test_downloader_def titled_book_def)

lemma test_runEntries3:
  "runEntries (test_downloader [titled_book t1 c1, titled_book t2 c2, titled_book t3 c3])
       [Some c1, Some c2, Some c3]
     = [(titled_book t1 c1, Some c1), (titled_book t2 c2, Some c2), (titled_book t3 c3, Some c3)]"
  by (simp add: runEntries_def test_downloader_def upt_3 nthOpt_def)



lemma test_test_downloader:
  "downloadProgress (test_downloader books) = None"
  "knownFilenames (test_downloader books) = []"
  "savedFiles (test_downloader books) = []"
  by (simp_all add: test_downloader_def)


section \<open>What a packaging run saves\<close>

text \<open>
  Claim C7 at a failing input. Three selected books render \<open>a.jpg\<close>, \<open>a (1).jpg\<close> and
  \<open>a.jpg\<close>, and all three have image bytes. The third is renamed to \<open>a (1).jpg\<close>, the
  name of the second, and replaces it: the archive has two entries and the cover of the
  second book is not in it.
\<close>

theorem downloadSelectedCovers_overwrites_entry:
  "savedFiles (downloadSelectedCovers test_env (test_downloader collide_books)) =
     [SavedZip (str ''covers.zip'') 0 [(str ''a.jpg'', str ''c1''), (str ''a (1).jpg'', str ''c3'')]]"
proof -
  let ?s = "test_downloader collide_books"
  let ?images = "[Some (str ''c1''), Some (str ''c2''), Some (str ''c3'')]"
  have a: "str ''a'' @ str ''.jpg'' = str ''a.jpg''" "str ''a (1)'' @ str ''.jpg'' = str ''a (1).jpg''"
    by (simp_all add: str_def)
  have ne: "str ''a.jpg'' \<noteq> str ''a (1).jpg''" "str ''a (1).jpg'' \<noteq> str ''a.jpg''"
      "str ''a (1).jpg'' \<noteq> str ''__proto__''" "str ''a.jpg'' \<noteq> str ''__proto__''"
    by (simp_all add: str_def)
  have g: "getCovers test_env (map cover (selectedBooks ?s)) = Some ?images"
    unfolding collide_books_def test_covers3 test_getCovers by simp
  have r: "runEntries ?s ?images
           = [(titled_book (str ''a'') (str ''c1''), Some (str ''c1'')),
              (titled_book (str ''a (1)'') (str ''c2''), Some (str ''c2'')),
              (titled_book (str ''a'') (str ''c3''), Some (str ''c3''))]"
    unfolding collide_books_def by (rule test_runEntries3)
  have el: "eligibleName test_env ?s (titled_book (str ''a'') c, Some buf) = Some (str ''a.jpg'')"
      "eligibleName test_env ?s (titled_book (str ''a (1)'') c, Some buf) = Some (str ''a (1).jpg'')"
    for c buf
    using test_eligibleName[OF test_allSeries, of collide_books "str ''a''" c buf]
      test_eligibleName[OF test_allSeries, of collide_books "str ''a (1)''" c buf] a
    by simp_all
  have ni: "str ''a.jpg'' \<notin> set objectPrototypeKeys" "str ''a (1).jpg'' \<notin> set objectPrototypeKeys"
    using not_inherited_jpg[of "str ''a''"] not_inherited_jpg[of "str ''a (1)''"] a by simp_all
  have nm: "namedEntries test_env ?s (runEntries ?s ?images)
            = [(str ''a.jpg'', str ''c1''), (str ''a (1).jpg'', str ''c2''),
               (str ''a (1).jpg'', str ''c3'')]"
    unfolding r using insertCounter_a_jpg ne
    by (simp add: namedEntries_def upt_3 el sameNameBefore_def test_resolvedName)
  have pl: "plainNames test_env ?s (runEntries ?s ?images)"
    unfolding plainNames_def nm unfolding r using ni ne by (simp add: el)
  have st: "storeAll [(str ''a.jpg'', str ''c1''), (str ''a (1).jpg'', str ''c2''),
               (str ''a (1).jpg'', str ''c3'')]
            = [(str ''a.jpg'', str ''c1''), (str ''a (1).jpg'', str ''c3'')]"
    using ne by (simp add: storeAll_def)
  show ?thesis
    unfolding downloadSelectedCovers_stored[OF test_test_downloader(1,2) g pl] nm st
      saveImages_two[OF name_not_index(3,4)]
    by (simp add: test_test_downloader)
qed

section \<open>The ordering number of a title\<close>

lemma replaceAll_single: "replaceAll s ch [d] = map (\<lambda>c. if c = ch then d else c) s"
  by (induction s) (auto simp: replaceAll_def)

lemma fold_digits:
  "foldl (\<lambda>s (character, i). replaceAll s character [48 + i]) s0 (zip japaneseCharacters [0..<10])
   = map (digitStep 9 0xFF19 \<circ> digitStep 8 0xFF18 \<circ> digitStep 7 0xFF17 \<circ> digitStep 6 0xFF16
          \<circ> digitStep 5 0xFF15 \<circ> digitStep 4 0xFF14 \<circ> digitStep 3 0xFF13 \<circ> digitStep 2 0xFF12
          \<circ> digitStep 1 0xFF11 \<circ> digitStep 0 0xFF10) s0"
proof -
  have u: "[0..<10] = [0,1,2,3,4,5,6,7,8,9]" by (simp add: upt_rec)
  have r: "replaceAll s ch [48 + i] = map (digitStep i ch) s" for s ch i
    unfolding replaceAll_single digitStep_def by (rule refl)
  show ?thesis
    unfolding u japaneseCharacters_def by (simp only: zip.simps list.case foldl.simps prod.case r map_map o_assoc)
qed

lemma digit_chain:
  "(digitStep 9 0xFF19 \<circ> digitStep 8 0xFF18 \<circ> digitStep 7 0xFF17 \<circ> digitStep 6 0xFF16
          \<circ> digitStep 5 0xFF15 \<circ> digitStep 4 0xFF14 \<circ> digitStep 3 0xFF13 \<circ> digitStep 2 0xFF12
          \<circ> digitStep 1 0xFF11 \<circ> digitStep 0 0xFF10) c
   = (if 0xFF10 \<le> c \<and> c \<le> 0xFF19 then c - 0xFF10 + 48 else c)"
proof (cases "0xFF10 \<le> c \<and> c \<le> 0xFF19")
  case True
  then have "c = 0xFF10 \<or> c = 0xFF11 \<or> c = 0xFF12 \<or> c = 0xFF13 \<or> c = 0xFF14 \<or> c = 0xFF15
     \<or> c = 0xFF16 \<or> c = 0xFF17 \<or> c = 0xFF18 \<or> c = 0xFF19" by arith
  then show ?thesis
    by (elim disjE) (simp_all add: digitStep_def)
next
  case False
  then have "c \<noteq> 0xFF10" "c \<noteq> 0xFF11" "c \<noteq> 0xFF12" "c \<noteq> 0xFF13" "c \<noteq> 0xFF14" "c \<noteq> 0xFF15"
      "c \<noteq> 0xFF16" "c \<noteq> 0xFF17" "c \<noteq> 0xFF18" "c \<noteq> 0xFF19" by arith+
  then show ?thesis using False by (auto simp: digitStep_def)
qed

lemma normalize_eq:
  "foldl (\<lambda>s (character, i). replaceAll s character [48 + i])
      (map (\<lambda>c. if c \<in> set separators then 46 else c) title') (zip japaneseCharacters [0..<10])
   = spec_normalize title'"
proof -
  have "map (digitStep 9 0xFF19 \<circ> digitStep 8 0xFF18 \<circ> digitStep 7 0xFF17 \<circ> digitStep 6 0xFF16
          \<circ> digitStep 5 0xFF15 \<circ> digitStep 4 0xFF14 \<circ> digitStep 3 0xFF13 \<circ> digitStep 2 0xFF12
          \<circ> digitStep 1 0xFF11 \<circ> digitStep 0 0xFF10)
         (map (\<lambda>c. if c \<in> set separators then 46 else c) title') = spec_normalize title'"
    unfolding spec_normalize_def map_map
  proof (rule map_cong[OF refl])
    fix c
    show "((digitStep 9 0xFF19 \<circ> digitStep 8 0xFF18 \<circ> digitStep 7 0xFF17 \<circ> digitStep 6 0xFF16
          \<circ> digitStep 5 0xFF15 \<circ> digitStep 4 0xFF14 \<circ> digitStep 3 0xFF13 \<circ> digitStep 2 0xFF12
          \<circ> digitStep 1 0xFF11 \<circ> digitStep 0 0xFF10) \<circ> (\<lambda>c. if c \<in> set separators then 46 else c)) c
        = (if c \<in> {0xFF0E, 44, 35, 47, 0xFF0F, 0x30FB, 0x5E74, 0x6708} then 46
              else if 0xFF10 \<le> c \<and> c \<le> 0xFF19 then c - 0xFF10 + 48
              else c)"
      unfolding comp_apply[of _ "\<lambda>c. if c \<in> set separators then 46 else c"] digit_chain
      by (simp add: separators_def)
  qed
  then show ?thesis unfolding fold_digits .
qed

lemma matchAll_Nil: "matchAll r s = [] \<longleftrightarrow> searchRe r s = None"
  by (subst matchAll.simps) (simp split: option.splits)

lemma matchAll_hd:
  "matchAll r s = m # ms \<Longrightarrow> \<exists>rest. searchRe r s = Some (fst m, snd m, rest)"
  by (subst (asm) matchAll.simps) (auto split: option.splits)

lemma pop_once: "pop [Some t, c] = c"
  by (simp add: pop_def)

lemma pop_global: "pop (map (Some \<circ> fst) (m # ms)) = Some (fst (last (m # ms)))"
proof -
  have "pop (map (Some \<circ> fst) (m # ms)) = last (map (Some \<circ> fst) (m # ms))"
    by (simp add: pop_def)
  also have "\<dots> = (Some \<circ> fst) (last (m # ms))"
    by (rule last_map) simp
  finally show ?thesis by simp
qed

lemma select_eq:
  "(case orElse (matchOnce markerRe s)
           (orElse (matchGlobal parenRe s)
             (orElse (matchGlobal spacedRe s) (matchGlobal anyNumberRe s))) of
      None \<Rightarrow> None | Some ms \<Rightarrow> pop ms)
   = spec_firstPattern
       [(matchAll markerRe s \<noteq> [], spec_markerNumber FirstMatch s),
        (matchAll parenRe s \<noteq> [], spec_lastMatch parenRe s),
        (matchAll spacedRe s \<noteq> [], spec_lastMatch spacedRe s),
        (matchAll anyNumberRe s \<noteq> [], spec_lastMatch anyNumberRe s)]"
proof -
  have g: "(case matchGlobal r s of None \<Rightarrow> x | Some ms \<Rightarrow> pop ms)
         = (if matchAll r s \<noteq> [] then spec_lastMatch r s else x)" for r x
  proof (cases "matchAll r s")
    case Nil
    then show ?thesis by (simp add: matchGlobal_def)
  next
    case (Cons a l)
    then show ?thesis using pop_global[of a l]
      by (simp add: matchGlobal_def spec_lastMatch_def)
  qed
  have gn: "matchGlobal r s = None \<longleftrightarrow> matchAll r s = []" for r
    by (cases "matchAll r s") (simp_all add: matchGlobal_def)
  show ?thesis
  proof (cases "matchAll markerRe s")
    case Nil
    then have m: "matchOnce markerRe s = None" by (simp add: matchOnce_def matchAll_Nil)
    show ?thesis
    proof (cases "matchAll parenRe s = []")
      case False
      then obtain ms where "matchGlobal parenRe s = Some ms" using gn[of parenRe] by auto
      then show ?thesis using g[of None parenRe] Nil False m by (simp add: orElse_def)
    next
      case p: True
      show ?thesis
      proof (cases "matchAll spacedRe s = []")
        case False
        then obtain ms where "matchGlobal spacedRe s = Some ms" using gn[of spacedRe] by auto
        then show ?thesis using g[of None spacedRe] Nil p False m gn[of parenRe]
          by (simp add: orElse_def)
      next
        case True
        then show ?thesis using g[of None anyNumberRe] Nil p m gn[of parenRe] gn[of spacedRe]
          by (simp add: orElse_def split: option.splits)
      qed
    qed
  next
    case (Cons m ms)
    from matchAll_hd[OF Cons] obtain rest where "searchRe markerRe s = Some (fst m, snd m, rest)"
      by blast
    then show ?thesis using Cons
      by (simp add: matchOnce_def orElse_def pop_once spec_markerNumber_def)
  qed
qed

lemma getVolumeNumber_spec:
  "getVolumeNumber title' = spec_extractOrderingNumber FirstMatch title'"
proof -
  have z: "(case matchOnce zeroStripRe v of None \<Rightarrow> None
            | Some ms \<Rightarrow> if truthyStr (pop ms) then pop ms else None)
           = spec_stripZeros v" for v
    by (cases "searchRe zeroStripRe v")
       (auto simp: matchOnce_def spec_stripZeros_def pop_once Let_def)
  show ?thesis
    unfolding getVolumeNumber_def spec_extractOrderingNumber_def Let_def normalize_eq select_eq z
    by (rule refl)
qed

lemmas re_eval = markerRe_def parenRe_def spacedRe_def anyNumberRe_def zeroStripRe_def numberRe_def
  rmatch.simps(5) isDigit_def isSpace_def lit_def litI_def toLowerCase_def str_def
  matchOnce_def matchGlobal_def orElse_def pop_def truthyStr_def matchAll.simps

lemmas spec_eval = spec_extractOrderingNumber_def spec_normalize_def spec_markerNumber_def
  spec_lastMatch_def spec_stripZeros_def Let_def

text \<open>
  Claim C5, as amended. For every title the extraction normalises the locale punctuation
  (full-width full stop, comma, number sign, solidus, full-width solidus, middle dot, the
  signs for year and month) to a full stop and the full-width digits to ASCII digits,
  then tries in priority order (1) an explicit Volume, Chapter, vol. or No. followed by
  a number, (2) a parenthesised number, (3) a number between two spaces, (4) any number;
  the first pattern that matches decides, with the number of its first match for
  pattern (1) and with its last match for the patterns (2) to (4); and the result is the
  first number in that match without the leading zeros of its first digit group, of
  which one digit is kept when it has no other. \<open>Volume 12\<close> gives \<open>12\<close>, the full-width
  title gives \<open>5\<close>, \<open>vol.007\<close> gives \<open>7\<close> and \<open>(000)\<close> gives \<open>0\<close>.
\<close>

theorem getVolumeNumber_priority:
  "getVolumeNumber title' = spec_extractOrderingNumber FirstMatch title'
   \<and> getVolumeNumber (str ''Volume 12'') = Some (str ''12'')
   \<and> getVolumeNumber [0x7B2C, 0xFF15, 0x5DFB] = Some (str ''5'')
   \<and> getVolumeNumber (str ''vol.007'') = Some (str ''7'')
   \<and> getVolumeNumber (str ''(000)'') = Some (str ''0'')"
proof -
  have 1: "spec_extractOrderingNumber FirstMatch (str ''Volume 12'') = Some (str ''12'')"
    by (simp add: spec_eval re_eval)
  have 2: "spec_extractOrderingNumber FirstMatch [0x7B2C, 0xFF15, 0x5DFB] = Some (str ''5'')"
    by (simp add: spec_eval re_eval)
  have 3: "spec_extractOrderingNumber FirstMatch (str ''vol.007'') = Some (str ''7'')"
    by (simp add: spec_eval re_eval)
  have 4: "spec_extractOrderingNumber FirstMatch (str ''(000)'') = Some (str ''0'')"
    by (simp add: spec_eval re_eval)
  show ?thesis using 1 2 3 4 by (simp add: getVolumeNumber_spec)
qed

theorem getVolumeNumber_priority_witness:
  "getVolumeNumber (str ''Chapter 10.5 (2)'') = Some (str ''10.5'')"
proof -
  have "spec_extractOrderingNumber FirstMatch (str ''Chapter 10.5 (2)'') = Some (str ''10.5'')"
    by (simp add: spec_eval re_eval)
  then show ?thesis
    using getVolumeNumber_priority[of "str ''Chapter 10.5 (2)''"] by simp
qed

text \<open>
  Claim C5 as stated fails where the pattern with the explicit marker matches twice: the
  code takes the number of the first match, the specification that of the last.
\<close>

theorem getVolumeNumber_counterexample:
  "getVolumeNumber (str ''vol.1 vol.2'') = Some (str ''1'')
   \<and> spec_extractOrderingNumber LastMatch (str ''vol.1 vol.2'') = Some (str ''2'')"
proof -
  have 1: "spec_extractOrderingNumber FirstMatch (str ''vol.1 vol.2'') = Some (str ''1'')"
    by (simp add: spec_eval re_eval)
  have 2: "spec_extractOrderingNumber LastMatch (str ''vol.1 vol.2'') = Some (str ''2'')"
    by (simp add: spec_eval re_eval)
  show ?thesis using 1 2 by (simp add: getVolumeNumber_spec)
qed

section \<open>The fetching flag and the page tracker\<close>

lemma sameTracker_refl: "sameTracker s s"
  by (simp add: sameTracker_def)

lemma sameTracker_trans: "sameTracker s t \<Longrightarrow> sameTracker t u \<Longrightarrow> sameTracker s u"
  by (simp add: sameTracker_def)

lemma reportError_tracker: "sameTracker s (reportError p msg s)"
  by (simp add: sameTracker_def reportError_def)

lemma fetchProviderPages_tracker: "sameTracker s (fetchProviderPages e p newBooks s)"
  by (simp add: sameTracker_def fetchProviderPages_def reportError_def Let_def
      split: option.splits lookup.splits)

lemma providerStep_tracker:
  "(case providerStep e r (Inr (s, bs)) p of
      Inl t \<Rightarrow> sameTracker s t
    | Inr (t, bs') \<Rightarrow> sameTracker s t)"
  using fetchProviderPages_tracker
  by (auto simp: providerStep_def Let_def sameTracker_refl split: lookup.splits)

lemma providerStep_Inl: "providerStep e r (Inl t) p = Inl t"
  by (simp add: providerStep_def)

lemma foldl_providerStep_Inl: "foldl (providerStep e r) (Inl t) ps = Inl t"
  by (induction ps) (simp_all add: providerStep_Inl)

lemma foldl_providerStep_tracker:
  "(case foldl (providerStep e r) (Inr (s, bs)) ps of
      Inl t \<Rightarrow> sameTracker s t
    | Inr (t, bs') \<Rightarrow> sameTracker s t)"
proof (induction ps arbitrary: s bs)
  case Nil
  then show ?case by (simp add: sameTracker_refl)
next
  case (Cons p ps)
  show ?case
  proof (cases "providerStep e r (Inr (s, bs)) p")
    case (Inl t)
    then show ?thesis
      using providerStep_tracker[where e=e and r=r and s=s and bs=bs and p=p]
      by (simp add: foldl_providerStep_Inl)
  next
    case (Inr x)
    obtain t bs' where x: "x = (t, bs')" by (cases x)
    have st: "sameTracker s t"
      using providerStep_tracker[where e=e and r=r and s=s and bs=bs and p=p] Inr x by simp
    show ?thesis
      using Cons.IH[where s=t and bs=bs'] st unfolding foldl_Cons Inr x
      by (auto split: sum.splits intro: sameTracker_trans)
  qed
qed

lemma fetchCoverInfo_tracker: "sameTracker s (fst (fetchCoverInfo e (s, bs) b))"
  by (simp add: fetchCoverInfo_def Let_def sameTracker_def reportError_def split: option.splits)

lemma foldl_fetchCoverInfo_tracker: "sameTracker s (fst (foldl (fetchCoverInfo e) (s, bs) books))"
proof (induction books arbitrary: s bs)
  case Nil
  then show ?case by (simp add: sameTracker_refl)
next
  case (Cons b books)
  obtain t bs' where x: "fetchCoverInfo e (s, bs) b = (t, bs')" by (cases "fetchCoverInfo e (s, bs) b")
  have "sameTracker s t"
    using fetchCoverInfo_tracker[where s=s and e=e and bs=bs and b=b] x by simp
  then show ?case
    using Cons.IH[where s=t and bs=bs'] unfolding foldl_Cons x by (rule sameTracker_trans)
qed

lemma fetchPage_tracker:
  "(case fetchPage e s p of
      Inl t \<Rightarrow> fetchedPages t = fetchedPages s @ [p] \<and> isFetching t = isFetching s
    | Inr t \<Rightarrow> fetchedPages t = fetchedPages s @ [p] \<and> isFetching t = isFetching s)"
proof (cases "getBooks e (allSeriesIds s) (allBookIds s) (sortOrder s) p")
  case None
  then show ?thesis by (simp add: fetchPage_def Let_def)
next
  case (Some r)
  let ?s4 = "s\<lparr>fetchedPages := fetchedPages s @ [p],
                requests := requests s @ [GetBooks (allSeriesIds s) (allBookIds s) (sortOrder s) p],
                maxPage := max (maxPage s) (resPages r),
                appErrors := appErrors s @ resErrors r\<rparr>"
  have s4: "fetchedPages ?s4 = fetchedPages s @ [p]" "isFetching ?s4 = isFetching s"
      "selectedProviders ?s4 = selectedProviders s"
    by simp_all
  show ?thesis
  proof (cases "resCount r > 0")
    case False
    then show ?thesis using Some by (simp add: fetchPage_def Let_def)
  next
    case True
    show ?thesis
    proof (cases "foldl (providerStep e r) (Inr (?s4, [])) (selectedProviders s)")
      case (Inl t)
      have "sameTracker ?s4 t"
        using foldl_providerStep_tracker[where e=e and r=r and s="?s4" and bs="[]"
            and ps="selectedProviders s"] Inl
        by simp
      then show ?thesis
        using Some True Inl by (simp add: fetchPage_def Let_def sameTracker_def)
    next
      case (Inr x)
      obtain s5 newBooks where x: "x = (s5, newBooks)" by (cases x)
      have 5: "sameTracker ?s4 s5"
        using foldl_providerStep_tracker[where e=e and r=r and s="?s4" and bs="[]"
            and ps="selectedProviders s"] Inr x by simp
      have 6: "sameTracker s5 (fst (foldl (fetchCoverInfo e) (s5, []) bs))" for bs
        by (rule foldl_fetchCoverInfo_tracker)
      show ?thesis
        using Some True Inr x 5 6
        by (simp add: fetchPage_def Let_def sameTracker_def split: prod.splits)
          (metis fst_conv)
    qed
  qed
qed

lemma fetchPages_tracker:
  "\<exists>k t. k \<le> length pages
     \<and> (fetchPages e s pages = Inl t \<or> (fetchPages e s pages = Inr t \<and> k = length pages))
     \<and> fetchedPages t = fetchedPages s @ take k pages \<and> isFetching t = isFetching s"
proof (induction pages arbitrary: s)
  case Nil
  then show ?case by simp
next
  case (Cons p pages)
  show ?case
  proof (cases "fetchPage e s p")
    case (Inl t)
    then have "fetchedPages t = fetchedPages s @ take 1 (p # pages)" "isFetching t = isFetching s"
      using fetchPage_tracker[where e=e and s=s and p=p] by simp_all
    then show ?thesis using Inl
      by (intro exI[of _ 1] exI[of _ t]) simp
  next
    case (Inr t)
    then have t: "fetchedPages t = fetchedPages s @ [p]" "isFetching t = isFetching s"
      using fetchPage_tracker[where e=e and s=s and p=p] by simp_all
    from Cons.IH[where s=t] obtain k u where k: "k \<le> length pages"
      and r: "fetchPages e t pages = Inl u \<or> (fetchPages e t pages = Inr u \<and> k = length pages)"
      and f: "fetchedPages u = fetchedPages t @ take k pages" "isFetching u = isFetching t"
      by blast
    show ?thesis
      using k r f t Inr
      by (intro exI[of _ "Suc k"] exI[of _ u]) auto
  qed
qed

lemma fetchBooks_tracker:
  "\<exists>k. fetchedPages (fetchBooks e s)
          = fetchedPages s @ take k (case pagesToFetch s of None \<Rightarrow> [] | Some pages \<Rightarrow> pages)"
proof (cases "isFetching s \<or> (length (ownKeys (allSeriesIds s)) = 0 \<and> length (ownKeys (allBookIds s)) = 0)")
  case True
  then have "fetchedPages (fetchBooks e s) = fetchedPages s"
    by (auto simp: fetchBooks_def Let_def)
  then show ?thesis by (intro exI[of _ 0]) simp
next
  case False
  have p: "pagesToFetch (s\<lparr>isFetching := True\<rparr>) = pagesToFetch s"
    by (simp add: pagesToFetch_def)
  show ?thesis
  proof (cases "pagesToFetch s")
    case None
    then show ?thesis using False p by (intro exI[of _ 0]) (auto simp: fetchBooks_def Let_def)
  next
    case (Some pages)
    from fetchPages_tracker[where pages=pages and e=e and s="s\<lparr>isFetching := True\<rparr>"]
    obtain k t where
      r: "fetchPages e (s\<lparr>isFetching := True\<rparr>) pages = Inl t
          \<or> (fetchPages e (s\<lparr>isFetching := True\<rparr>) pages = Inr t \<and> k = length pages)"
      and f: "fetchedPages t = fetchedPages s @ take k pages"
      by auto
    have "fetchedPages (fetchBooks e s) = fetchedPages t"
      using False p Some r by (auto simp: fetchBooks_def Let_def)
    then show ?thesis using f Some by (intro exI[of _ k]) simp
  qed
qed

lemma fetchBooks_flag: "\<not> isFetching (fetchBooks e s) \<or> isFetching s"
  by (auto simp: fetchBooks_def Let_def split: option.splits sum.splits)

lemma fetchBooks_distinct:
  assumes "distinct (fetchedPages s)" and "incrementPages s \<or> page s \<notin> set (fetchedPages s)"
  shows "distinct (fetchedPages (fetchBooks e s))"
proof -
  from fetchBooks_tracker[where e=e and s=s] obtain k where
    k: "fetchedPages (fetchBooks e s)
          = fetchedPages s @ take k (case pagesToFetch s of None \<Rightarrow> [] | Some pages \<Rightarrow> pages)"
    by blast
  let ?ps = "(case pagesToFetch s of None \<Rightarrow> [] | Some pages \<Rightarrow> pages)"
  have d: "distinct ?ps" and i: "set ?ps \<inter> set (fetchedPages s) = {}"
    using assms(2) by (auto simp: pagesToFetch_def)
  have "distinct (take k ?ps)" using d by simp
  moreover have "set (take k ?ps) \<inter> set (fetchedPages s) = {}"
    using i set_take_subset[of k ?ps] by blast
  ultimately show ?thesis unfolding k using assms(1) by auto
qed

lemma resetAll_tracker:
  "\<exists>k. fetchedPages (resetAll e s) = take k (if incrementPages s then [1..page s] else [page s])"
proof -
  let ?c = "s\<lparr>appLoading := True, fetchedPages := [], allBooks := [], selectedBooks := [],
               allBookPages := []\<rparr>"
  from fetchBooks_tracker[where e=e and s="?c"] obtain k where
    k: "fetchedPages (fetchBooks e ?c)
          = fetchedPages ?c @ take k (case pagesToFetch ?c of None \<Rightarrow> [] | Some pages \<Rightarrow> pages)"
    by blast
  have r: "fetchedPages (resetAll e s) = fetchedPages (fetchBooks e ?c)"
    by (simp add: resetAll_def Let_def)
  show ?thesis
  proof (cases "pagesToFetch ?c")
    case None
    then show ?thesis using k r by (intro exI[of _ 0]) simp
  next
    case (Some pages)
    then have "pages = (if incrementPages s then [1..page s] else [page s])"
      by (auto simp: pagesToFetch_def split: if_splits)
    then show ?thesis using k r Some by (intro exI[of _ k]) simp
  qed
qed

lemma resetAll_distinct: "distinct (fetchedPages (resetAll e s))"
proof -
  from resetAll_tracker[where e=e and s=s] obtain k where
    "fetchedPages (resetAll e s) = take k (if incrementPages s then [1..page s] else [page s])"
    by blast
  then show ?thesis by simp
qed

lemma changePage_distinct:
  "distinct (fetchedPages s) \<Longrightarrow> distinct (fetchedPages (changePage e p s))"
  by (simp add: changePage_def resetAll_distinct)

lemma toggleSortOrder_distinct: "distinct (fetchedPages (toggleSortOrder e s))"
  by (simp add: toggleSortOrder_def resetAll_distinct)

lemma incrementPage_distinct:
  "distinct (fetchedPages s) \<Longrightarrow> distinct (fetchedPages (incrementPage e s))"
  by (simp add: incrementPage_def fetchBooks_distinct)

lemma fetchSeries_tracker: "fetchedPages (fetchSeries e s) = fetchedPages s"
proof -
  have f: "fetchedPages (foldl (\<lambda>st entry.
              case find (\<lambda>p. providerId p = fst entry) (providers st) of
                None \<Rightarrow> st
              | Some provider' \<Rightarrow> st\<lparr>allSeries := allSeries st @ g provider' entry\<rparr>) t es)
           = fetchedPages t" for t es g
    by (induction es arbitrary: t) (simp_all split: option.splits)
  show ?thesis
    by (simp add: fetchSeries_def Let_def f split: option.splits)
qed

lemma initProvider_tracker: "fetchedPages (initProvider e s p) = fetchedPages s"
  by (simp add: initProvider_def Let_def)

lemma foldl_initProvider_tracker: "fetchedPages (foldl (initProvider e) s ps) = fetchedPages s"
  by (induction ps arbitrary: s) (simp_all add: initProvider_tracker)

lemma initialize_tracker:
  "\<exists>ps. fetchedPages (initialize e s) = fetchedPages s @ ps
        \<and> (fetchedPages s = [] \<longrightarrow> distinct ps)"
proof -
  let ?s1 = "foldl (initProvider e)
               (s\<lparr>providers := [], selectedProviders := [], allSeriesIds := [], allBookIds := []\<rparr>)
               (allProviders e)"
  have 1: "fetchedPages ?s1 = fetchedPages s" by (simp add: foldl_initProvider_tracker)
  have 2: "fetchedPages (fetchSeries e ?s1) = fetchedPages s" by (simp add: fetchSeries_tracker 1)
  from fetchBooks_tracker[where e=e and s="fetchSeries e ?s1"] obtain k where
    k: "fetchedPages (fetchBooks e (fetchSeries e ?s1))
          = fetchedPages s
              @ take k (case pagesToFetch (fetchSeries e ?s1) of None \<Rightarrow> [] | Some pages \<Rightarrow> pages)"
    unfolding 2 by blast
  have d: "fetchedPages s = [] \<Longrightarrow>
           distinct (fetchedPages (fetchBooks e (fetchSeries e ?s1)))"
    by (rule fetchBooks_distinct) (simp_all add: 2)
  have "fetchedPages (initialize e s) = fetchedPages s
    \<or> fetchedPages (initialize e s) = fetchedPages (fetchBooks e (fetchSeries e ?s1))"
  proof (cases "countIds (allSeriesIds ?s1) + countIds (allBookIds ?s1) > 10")
    case True
    then show ?thesis by (simp add: initialize_def Let_def 1)
  next
    case False
    then show ?thesis by (cases "providers ?s1 = []") (simp_all add: initialize_def Let_def 1)
  qed
  then consider "fetchedPages (initialize e s) = fetchedPages s"
    | "fetchedPages (initialize e s) = fetchedPages (fetchBooks e (fetchSeries e ?s1))"
    by blast
  then show ?thesis
  proof cases
    case 1
    then show ?thesis by simp
  next
    case 2
    show ?thesis
      unfolding 2 using k d by (intro exI[of _ "take k (case pagesToFetch (fetchSeries e ?s1) of None \<Rightarrow> [] | Some pages \<Rightarrow> pages)"]) auto
  qed
qed

lemma reachable_distinct: "reachable e s \<Longrightarrow> distinct (fetchedPages s)"
proof (induction rule: reachable.induct)
  case (reach_initialize s)
  then show ?case using initialize_tracker[where e=e and s=s] by auto
next
  case (reach_resetAll s)
  show ?case by (rule resetAll_distinct)
next
  case (reach_changePage s p)
  show ?case using reach_changePage.IH by (rule changePage_distinct)
next
  case (reach_incrementPage s)
  show ?case using reach_incrementPage.IH by (rule incrementPage_distinct)
next
  case (reach_toggleSortOrder s)
  show ?case by (rule toggleSortOrder_distinct)
qed

lemma fetchPages_flag:
  "(case fetchPages e s pages of Inl t \<Rightarrow> isFetching t = isFetching s
    | Inr t \<Rightarrow> isFetching t = isFetching s)"
  using fetchPages_tracker[where pages=pages and e=e and s=s] by auto

text \<open>
  Claim C6. A call of \<^verbatim>\<open>fetchBooks\<close> while the fetching flag is set returns at once: the
  downloader is the same afterwards, with the same requests issued, the same aggregate
  of books and the same page tracker. A fetch cycle raises the flag before its first
  request, the flag stays set over all the pages the cycle fetches, whether the loop ends
  or is left by an exception, and the cycle clears it at its end.
\<close>

theorem fetchBooks_reentrant:
  "(isFetching s \<longrightarrow>
      fetchBooks e s = s
      \<and> requests (fetchBooks e s) = requests s
      \<and> allBooks (fetchBooks e s) = allBooks s
      \<and> fetchedPages (fetchBooks e s) = fetchedPages s)
   \<and> (isFetching s \<longrightarrow>
        (case fetchPages e s pages of Inl t \<Rightarrow> isFetching t | Inr t \<Rightarrow> isFetching t))
   \<and> (\<not> isFetching s \<longrightarrow> \<not> isFetching (fetchBooks e s))"
proof -
  have 1: "isFetching s \<Longrightarrow> fetchBooks e s = s" by (simp add: fetchBooks_def)
  have 2: "isFetching s \<Longrightarrow>
        (case fetchPages e s pages of Inl t \<Rightarrow> isFetching t | Inr t \<Rightarrow> isFetching t)"
    using fetchPages_flag[where e=e and s=s and pages=pages] by (auto split: sum.splits)
  have 3: "\<not> isFetching s \<Longrightarrow> \<not> isFetching (fetchBooks e s)"
    using fetchBooks_flag[where e=e and s=s] by blast
  show ?thesis using 1 2 3 by simp
qed

lemma paging_fetchPage:
  "\<exists>t. fetchPage paging_env s p = Inr t
     \<and> fetchedPages t = fetchedPages s @ [p] \<and> maxPage t = max (maxPage s) 3
     \<and> page t = page s \<and> incrementPages t = incrementPages s \<and> isFetching t = isFetching s
     \<and> allSeriesIds t = allSeriesIds s \<and> allBookIds t = allBookIds s"
  by (simp add: fetchPage_def paging_env_def Let_def)

lemma paging_fetchPages:
  "\<exists>t. fetchPages paging_env s pages = Inr t
     \<and> fetchedPages t = fetchedPages s @ pages
     \<and> maxPage t = (if pages = [] then maxPage s else max (maxPage s) 3)
     \<and> page t = page s \<and> incrementPages t = incrementPages s \<and> isFetching t = isFetching s
     \<and> allSeriesIds t = allSeriesIds s \<and> allBookIds t = allBookIds s"
proof (induction pages arbitrary: s)
  case Nil
  then show ?case by simp
next
  case (Cons p pages)
  from paging_fetchPage[where s=s and p=p] obtain t where
    t: "fetchPage paging_env s p = Inr t" "fetchedPages t = fetchedPages s @ [p]"
      "maxPage t = max (maxPage s) 3" "page t = page s" "incrementPages t = incrementPages s"
      "isFetching t = isFetching s" "allSeriesIds t = allSeriesIds s" "allBookIds t = allBookIds s"
    by blast
  from Cons.IH[where s=t] obtain u where
    u: "fetchPages paging_env t pages = Inr u" "fetchedPages u = fetchedPages t @ pages"
      "maxPage u = (if pages = [] then maxPage t else max (maxPage t) 3)" "page u = page t"
      "incrementPages u = incrementPages t" "isFetching u = isFetching t"
      "allSeriesIds u = allSeriesIds t" "allBookIds u = allBookIds t"
    by blast
  show ?case
    using t u by (intro exI[of _ u]) auto
qed

lemma length_ownEntries: "length (ownEntries obj) = length obj"
  by (simp add: ownEntries_def sum_length_filter_compl)

lemma ownKeys_empty: "ownKeys obj = [] \<longleftrightarrow> obj = []"
proof -
  have "length (ownKeys obj) = length obj" by (simp add: ownKeys_def length_ownEntries)
  then show ?thesis by (metis length_0_conv)
qed

lemma fetchBooks_cycle:
  assumes "\<not> isFetching s" and "allSeriesIds s \<noteq> []"
    and "pagesToFetch s = Some pages"
    and "fetchPages e (s\<lparr>isFetching := True\<rparr>) pages = Inr t"
  shows "fetchBooks e s = t\<lparr>isFetching := False\<rparr>"
proof -
  have k: "\<not> (length (ownKeys (allSeriesIds (s\<lparr>isFetching := True\<rparr>))) = 0
            \<and> length (ownKeys (allBookIds (s\<lparr>isFetching := True\<rparr>))) = 0)"
    using assms(2) by (simp add: ownKeys_empty)
  have "pagesToFetch (s\<lparr>isFetching := True\<rparr>) = pagesToFetch s"
    by (simp add: pagesToFetch_def)
  then have p: "pagesToFetch (s\<lparr>isFetching := True\<rparr>) = Some pages"
    using assms(3) by simp
  show ?thesis
    unfolding fetchBooks_def Let_def using assms(1)
    by (simp only: if_False if_not_P[OF k] p option.case assms(4) sum.case)
qed

lemma paging_fetchBooks:
  assumes "\<not> isFetching s" and "allSeriesIds s \<noteq> []" and "pagesToFetch s = Some pages"
  shows "fetchedPages (fetchBooks paging_env s) = fetchedPages s @ pages
     \<and> maxPage (fetchBooks paging_env s) = (if pages = [] then maxPage s else max (maxPage s) 3)
     \<and> page (fetchBooks paging_env s) = page s
     \<and> incrementPages (fetchBooks paging_env s) = incrementPages s
     \<and> \<not> isFetching (fetchBooks paging_env s)
     \<and> allSeriesIds (fetchBooks paging_env s) = allSeriesIds s"
proof -
  from paging_fetchPages[where s="s\<lparr>isFetching := True\<rparr>" and pages=pages] obtain t where
    t: "fetchPages paging_env (s\<lparr>isFetching := True\<rparr>) pages = Inr t"
      "fetchedPages t = fetchedPages s @ pages"
      "maxPage t = (if pages = [] then maxPage s else max (maxPage s) 3)" "page t = page s"
      "incrementPages t = incrementPages s" "allSeriesIds t = allSeriesIds s"
    by auto
  have "fetchBooks paging_env s = t\<lparr>isFetching := False\<rparr>"
    using assms t(1) by (rule fetchBooks_cycle)
  then show ?thesis using t by simp
qed

lemma paging_initialize:
  "fetchedPages (initialize paging_env (test_downloader [])) = [1]
   \<and> maxPage (initialize paging_env (test_downloader [])) = 3
   \<and> page (initialize paging_env (test_downloader [])) = 1
   \<and> \<not> incrementPages (initialize paging_env (test_downloader []))
   \<and> \<not> isFetching (initialize paging_env (test_downloader []))
   \<and> allSeriesIds (initialize paging_env (test_downloader [])) = [(str ''p1'', [str ''s1''])]"
proof -
  let ?s0 = "(test_downloader [])\<lparr>providers := [], selectedProviders := [], allSeriesIds := [],
               allBookIds := []\<rparr>"
  let ?s1 = "foldl (initProvider paging_env) ?s0 (allProviders paging_env)"
  have ap: "allProviders paging_env = [test_provider]"
    by (simp add: paging_env_def test_env_def)
  have g: "getAllSvelteSearchParams paging_env (str ''series('' @ providerId test_provider @ str '')'')
             = [str ''s1'']"
      "getAllSvelteSearchParams paging_env (str ''book('' @ providerId test_provider @ str '')'')
             = []"
    by (simp_all add: paging_env_def test_provider_def str_def)
  have ne: "str ''p1'' \<noteq> str ''__proto__''" by (simp add: str_def)
  have s1: "?s1 = ?s0\<lparr>providers := [test_provider], selectedProviders := [test_provider],
                       allSeriesIds := [(str ''p1'', [str ''s1''])]\<rparr>"
    unfolding ap using ne
    by (simp add: initProvider_def g Let_def setIds_def) (simp add: test_provider_def)
  have f: "fetchedPages ?s1 = []" "maxPage ?s1 = 1" "page ?s1 = 1" "\<not> incrementPages ?s1"
      "\<not> isFetching ?s1" "allSeriesIds ?s1 = [(str ''p1'', [str ''s1''])]" "allBookIds ?s1 = []"
      "providers ?s1 \<noteq> []"
    unfolding s1 by (simp_all add: test_downloader_def)
  have c: "countIds (allSeriesIds ?s1) + countIds (allBookIds ?s1) = 1"
    unfolding f by (simp add: countIds_def ownEntries_def)
  have i: "initialize paging_env (test_downloader []) = fetchBooks paging_env (fetchSeries paging_env ?s1)"
    using c f(8) by (simp add: initialize_def Let_def)
  have gs: "getSeries paging_env ids = None" for ids
    by (simp add: paging_env_def test_env_def)
  have fs: "fetchedPages (fetchSeries paging_env ?s1) = []" "maxPage (fetchSeries paging_env ?s1) = 1"
      "page (fetchSeries paging_env ?s1) = 1" "\<not> incrementPages (fetchSeries paging_env ?s1)"
      "\<not> isFetching (fetchSeries paging_env ?s1)"
      "allSeriesIds (fetchSeries paging_env ?s1) = [(str ''p1'', [str ''s1''])]"
    using f by (simp_all add: fetchSeries_def Let_def gs)
  have pf: "pagesToFetch (fetchSeries paging_env ?s1) = Some [1]"
    using fs by (simp add: pagesToFetch_def)
  show ?thesis
    unfolding i using paging_fetchBooks[OF fs(5) _ pf] fs by simp
qed

text \<open>
  Claim C9, as amended. In every state that the operations of the download page reach,
  which are \<^verbatim>\<open>initialize\<close> on a downloader with an empty page tracker followed by
  \<^verbatim>\<open>resetAll\<close>, \<^verbatim>\<open>changePage\<close>, \<^verbatim>\<open>incrementPage\<close> and \<^verbatim>\<open>toggleSortOrder\<close> in any order and
  number, each run to its end, the tracker has no duplicate page. \<^verbatim>\<open>fetchBooks\<close>,
  \<^verbatim>\<open>incrementPage\<close> and \<^verbatim>\<open>initialize\<close> only add pages at the end of the tracker.
  \<^verbatim>\<open>resetAll\<close> and \<^verbatim>\<open>toggleSortOrder\<close> clear it and leave in it the pages they fetch
  themselves, an initial part of the pages from 1 to the current page, or of the current
  page alone; \<^verbatim>\<open>changePage\<close> does nothing for the current page, and for another page
  clears the tracker and leaves at most that page in it.
\<close>

theorem fetchedPages_distinct:
  "(reachable e s \<longrightarrow> distinct (fetchedPages s))
   \<and> (\<exists>ps. fetchedPages (fetchBooks e s) = fetchedPages s @ ps)
   \<and> (\<exists>ps. fetchedPages (incrementPage e s) = fetchedPages s @ ps)
   \<and> (\<exists>ps. fetchedPages (initialize e s) = fetchedPages s @ ps)
   \<and> (\<exists>k. fetchedPages (resetAll e s)
             = take k (if incrementPages s then [1..page s] else [page s]))
   \<and> (\<exists>k. fetchedPages (toggleSortOrder e s)
             = take k (if incrementPages s then [1..page s] else [page s]))
   \<and> changePage e (page s) s = s
   \<and> (p \<noteq> page s \<longrightarrow> (\<exists>k. fetchedPages (changePage e p s) = take k [p]))"
proof -
  have 1: "reachable e s \<longrightarrow> distinct (fetchedPages s)"
    using reachable_distinct by blast
  have 2: "\<exists>ps. fetchedPages (fetchBooks e t) = fetchedPages t @ ps" for t
    using fetchBooks_tracker[where e=e and s=t] by blast
  have 3: "\<exists>ps. fetchedPages (incrementPage e s) = fetchedPages s @ ps"
    using 2[of "s\<lparr>page := page s + 1, incrementPages := True\<rparr>"]
    by (simp add: incrementPage_def)
  have 4: "\<exists>ps. fetchedPages (initialize e s) = fetchedPages s @ ps"
    using initialize_tracker[where e=e and s=s] by blast
  note 5 = resetAll_tracker[where e=e and s=s]
  have "\<exists>k. fetchedPages (resetAll e (s\<lparr>sortOrder := x\<rparr>))
             = take k (if incrementPages s then [1..page s] else [page s])" for x
  proof -
    have a: "page (s\<lparr>sortOrder := x\<rparr>) = page s"
        "incrementPages (s\<lparr>sortOrder := x\<rparr>) = incrementPages s"
      by simp_all
    show ?thesis
      using resetAll_tracker[where e=e and s="s\<lparr>sortOrder := x\<rparr>"] unfolding a .
  qed
  then have 6: "\<exists>k. fetchedPages (toggleSortOrder e s)
             = take k (if incrementPages s then [1..page s] else [page s])"
    unfolding toggleSortOrder_def by blast
  have 7: "changePage e (page s) s = s" by (simp add: changePage_def)
  have 8: "p \<noteq> page s \<longrightarrow> (\<exists>k. fetchedPages (changePage e p s) = take k [p])"
    using resetAll_tracker[where e=e and s="s\<lparr>page := p, incrementPages := False\<rparr>"]
    by (simp add: changePage_def)
  show ?thesis using 1 2[of s] 3 4 5 6 7 8 by blast
qed

theorem fetchedPages_distinct_witness:
  "reachable paging_env (incrementPage paging_env (initialize paging_env (test_downloader [])))
   \<and> fetchedPages (incrementPage paging_env (initialize paging_env (test_downloader []))) = [1, 2]
   \<and> distinct (fetchedPages (incrementPage paging_env (initialize paging_env (test_downloader []))))"
proof -
  let ?s1 = "initialize paging_env (test_downloader [])"
  have r: "reachable paging_env (incrementPage paging_env ?s1)"
    by (intro reach_incrementPage reach_initialize) (simp add: test_downloader_def)
  have n: "isNextPage ?s1" using paging_initialize by (simp add: isNextPage_def)
  let ?s2 = "?s1\<lparr>page := page ?s1 + 1, incrementPages := True\<rparr>"
  have pf: "pagesToFetch ?s2 = Some [2]"
    using paging_initialize by (simp add: pagesToFetch_def upto.simps)
  have "fetchedPages (fetchBooks paging_env ?s2) = fetchedPages ?s2 @ [2]"
    using paging_fetchBooks[OF _ _ pf] paging_initialize by simp
  then have f: "fetchedPages (incrementPage paging_env ?s1) = [1, 2]"
    using n paging_initialize by (simp add: incrementPage_def)
  show ?thesis
    using r f fetchedPages_distinct[of paging_env "incrementPage paging_env ?s1"] by simp
qed

text \<open>
  Claim C9 as stated fails: \<^verbatim>\<open>fetchBooks\<close> is one of the operations it names, and a call
  of \<^verbatim>\<open>fetchBooks\<close> in the mode that fetches the current page alone adds this page to the
  tracker whether it is there or not. After \<^verbatim>\<open>initialize\<close> and \<^verbatim>\<open>fetchBooks\<close> the tracker
  holds page 1 twice.
\<close>

theorem fetchedPages_counterexample:
  "fetchedPages (initialize paging_env (test_downloader [])) = [1]
   \<and> fetchedPages (fetchBooks paging_env (initialize paging_env (test_downloader []))) = [1, 1]"
proof -
  let ?s1 = "initialize paging_env (test_downloader [])"
  have pf: "pagesToFetch ?s1 = Some [1]"
    using paging_initialize by (simp add: pagesToFetch_def)
  have "fetchedPages (fetchBooks paging_env ?s1) = fetchedPages ?s1 @ [1]"
    using paging_fetchBooks[OF _ _ pf] paging_initialize by simp
  then show ?thesis using paging_initialize by simp
qed

theorem fetchBooks_reentrant_witness:
  "isFetching ((test_downloader [])\<lparr>isFetching := True\<rparr>)
   \<and> fetchBooks paging_env ((test_downloader [])\<lparr>isFetching := True\<rparr>)
       = (test_downloader [])\<lparr>isFetching := True\<rparr>
   \<and> \<not> isFetching (fetchBooks paging_env (initialize paging_env (test_downloader [])))"
  using fetchBooks_reentrant[of "(test_downloader [])\<lparr>isFetching := True\<rparr>" paging_env "[]"]
    fetchBooks_reentrant[of "initialize paging_env (test_downloader [])" paging_env "[]"]
    paging_initialize
  by simp

end
